(* ===== verification/Prelude.thy ===== *)
theory Prelude
  imports Main
begin

text \<open>
  Shared vocabulary of the development. The scanner of
  \<^verbatim>\<open>src/src/lib/token-scanner.js\<close> and the cursor primitive it is built on signal
  malformed input by throwing; a call that throws still leaves the cursor where the
  failing read stopped, because the JavaScript closure keeps its scanner object. Every
  operation that may throw therefore returns an \<open>outcome\<close>: the error or the value,
  together with the cursor state after the call. \<open>ex_bind\<close> sequences two such
  calls the way a \<^verbatim>\<open>throw\<close> propagates through the closure: the second call runs only
  when the first one returned.

  The collections \<open>cursor_input\<close> and \<open>cursor_rest\<close> gather the frame lemmas of the
  cursor operations (the text is never changed, the unread rest never grows); the proofs of
  the scanner use them to show that its loops terminate and that positions only increase.
\<close>

named_theorems cursor_input "cursor operations leave the scanned text unchanged"
named_theorems cursor_rest "cursor operations never make the unread rest longer"

datatype scan_error =
    MissingArgument string  \<comment> \<open>\<^verbatim>\<open>throw new Error(`Missing argument for '${name}'`)\<close>\<close>
  | ExpectedChar char       \<comment> \<open>the cursor's \<^verbatim>\<open>expect(pattern)\<close> failed\<close>

type_synonym ('s, 'a) outcome = "(scan_error + 'a) \<times> 's"

definition ex_bind :: "('s, 'a) outcome \<Rightarrow> ('a \<Rightarrow> 's \<Rightarrow> ('s, 'b) outcome) \<Rightarrow> ('s, 'b) outcome" where
  "ex_bind r f = (case r of (Inl e, s) \<Rightarrow> (Inl e, s) | (Inr a, s) \<Rightarrow> f a s)"

lemma ex_bind_Inl [simp]: "ex_bind (Inl e, s) f = (Inl e, s)"
  by (simp add: ex_bind_def)

lemma ex_bind_Inr [simp]: "ex_bind (Inr a, s) f = f a s"
  by (simp add: ex_bind_def)

lemma ex_bind_eq_Inr:
  "ex_bind r f = (Inr b, s') \<longleftrightarrow> (\<exists>a s. r = (Inr a, s) \<and> f a s = (Inr b, s'))"
  by (cases r) (auto simp: ex_bind_def split: sum.splits)

lemma ex_bind_eq_Inl:
  "ex_bind r f = (Inl e, s') \<longleftrightarrow>
     r = (Inl e, s') \<or> (\<exists>a s. r = (Inr a, s) \<and> f a s = (Inl e, s'))"
  by (cases r) (auto simp: ex_bind_def split: sum.splits)

text \<open>Facts on \<open>takeWhile\<close> that the reads of the cursor need.\<close>

lemma takeWhile_take_le:
  "length (takeWhile P xs) \<le> n \<Longrightarrow> takeWhile P (take n xs) = takeWhile P xs"
proof (induction xs arbitrary: n)
  case Nil
  then show ?case by simp
next
  case (Cons x xs)
  then show ?case by (cases n) (auto split: if_splits)
qed

lemma length_takeWhile_neq_less [simp]:
  "length (takeWhile (\<lambda>x. x \<noteq> a) xs) < length xs \<longleftrightarrow> a \<in> set xs"
  by (induction xs) auto

lemma dropWhile_neq_Cons:
  "a \<in> set xs \<Longrightarrow> \<exists>r. dropWhile (\<lambda>x. x \<noteq> a) xs = a # r"
  by (induction xs) auto

lemma ex_bind_cases [consumes 1, case_names Inl Inr]:
  assumes "ex_bind r f = (x, s')"
  obtains (Inl) e where "r = (Inl e, s')" and "x = Inl e"
  | (Inr) a s where "r = (Inr a, s)" and "f a s = (x, s')"
  using assms by (cases r) (auto simp: ex_bind_def split: sum.splits)

lemma takeWhile_append_prefix:
  "takeWhile P (xs @ ys) = t \<Longrightarrow> length t \<le> length xs \<Longrightarrow> takeWhile P xs = t"
  using takeWhile_take_le [of P "xs @ ys" "length xs"] by simp

lemma count_list_none: "\<forall>x \<in> set xs. P x \<Longrightarrow> \<not> P a \<Longrightarrow> count_list xs a = 0"
  by (auto simp: count_list_0_iff)

end
