(* ===== verification/Cursor.thy ===== *)
theory Cursor
  imports Prelude
begin

text \<open>
  The cursor primitive \<^verbatim>\<open>newScanner\<close> that \<^verbatim>\<open>token-scanner.js\<close> imports from
  \<^verbatim>\<open>./scanner.js\<close>. That file is not part of the repository's sources, so this theory
  follows the interface of the specification (section 6): a reader over one text whose only
  mutable state is the current offset. The state is the record \<open>cursor\<close>; each method
  is a function from the state to its result and the new state. Patterns of the source
  that match one character (an opening or closing parenthesis, a comma, the dollar
  marker) are that character;
  \<^verbatim>\<open>readWhile\<close> takes its character class as a predicate.

  Characters are HOL's \<open>char\<close>; offsets are \<open>nat\<close> and count characters, as the
  JavaScript offsets count UTF-16 code units for text made of ASCII.
\<close>

record cursor =
  input :: string
  offset :: nat

definition new_scanner :: "string \<Rightarrow> cursor" where
  "new_scanner s = \<lparr>input = s, offset = 0\<rparr>"

definition rest :: "cursor \<Rightarrow> string" where
  "rest c = drop (offset c) (input c)"

definition advance :: "nat \<Rightarrow> cursor \<Rightarrow> cursor" where
  "advance n c = c\<lparr>offset := offset c + n\<rparr>"

definition is_space :: "char \<Rightarrow> bool" where
  "is_space ch \<longleftrightarrow>
     ch = CHR '' '' \<or> ch = CHR 0x09 \<or> ch = CHR 0x0A \<or> ch = CHR 0x0B \<or> ch = CHR 0x0C \<or> ch = CHR 0x0D"

definition read_while :: "(char \<Rightarrow> bool) \<Rightarrow> cursor \<Rightarrow> string \<times> cursor" where
  "read_while P c = (let s = takeWhile P (rest c) in (s, advance (length s) c))"

definition skip_space :: "cursor \<Rightarrow> cursor" where
  "skip_space c = snd (read_while is_space c)"

definition accept :: "char \<Rightarrow> cursor \<Rightarrow> bool \<times> cursor" where
  "accept ch c = (case rest c of
       x # _ \<Rightarrow> if x = ch then (True, advance 1 c) else (False, c)
     | [] \<Rightarrow> (False, c))"

definition expect :: "char \<Rightarrow> cursor \<Rightarrow> (cursor, unit) outcome" where
  "expect ch c = (case accept ch c of
       (True, c') \<Rightarrow> (Inr (), c')
     | (False, c') \<Rightarrow> (Inl (ExpectedChar ch), c'))"

definition seek :: "char \<Rightarrow> cursor \<Rightarrow> bool \<times> cursor" where
  "seek ch c = (let k = length (takeWhile (\<lambda>x. x \<noteq> ch) (rest c))
                in if k < length (rest c) then (True, advance k c) else (False, c))"

definition read :: "cursor \<Rightarrow> char option \<times> cursor" where
  "read c = (case rest c of [] \<Rightarrow> (None, c) | x # _ \<Rightarrow> (Some x, advance 1 c))"

definition index :: "cursor \<Rightarrow> nat" where
  "index c = offset c"

definition slice :: "cursor \<Rightarrow> nat \<Rightarrow> nat \<Rightarrow> string" where
  "slice c s e = take (e - s) (drop s (input c))"

text \<open>
  \<open>consumed c u c'\<close>: the call that went from \<open>c\<close> to \<open>c'\<close> read exactly the
  characters \<open>u\<close> at the front of the unread rest. Every operation of the cursor and of
  the scanner is described by such a fact; they compose by \<open>consumed_trans\<close>.
\<close>

definition consumed :: "cursor \<Rightarrow> string \<Rightarrow> cursor \<Rightarrow> bool" where
  "consumed c u c' \<longleftrightarrow> take (length u) (rest c) = u \<and> c' = advance (length u) c"

abbreviation moves :: "cursor \<Rightarrow> cursor \<Rightarrow> bool" where
  "moves c c' \<equiv> \<exists>u. consumed c u c'"

subsection \<open>Frame and characterisation lemmas\<close>

lemma input_advance [simp, cursor_input]: "input (advance n c) = input c"
  by (simp add: advance_def)

lemma offset_advance [simp]: "offset (advance n c) = offset c + n"
  by (simp add: advance_def)

lemma rest_advance [simp]: "rest (advance n c) = drop n (rest c)"
  by (simp add: rest_def advance_def add.commute)

lemma advance_0 [simp]: "advance 0 c = c"
  by (simp add: advance_def)

lemma advance_advance [simp]: "advance m (advance n c) = advance (n + m) c"
  by (simp add: advance_def add.assoc)

lemma length_rest: "length (rest c) = length (input c) - offset c"
  by (simp add: rest_def)

lemma read_while_eq:
  "read_while P c = (s, c') \<longleftrightarrow>
     s = takeWhile P (rest c) \<and> c' = advance (length (takeWhile P (rest c))) c"
  by (auto simp: read_while_def Let_def)

lemma input_read_while [simp, cursor_input]: "input (snd (read_while P c)) = input c"
  by (simp add: read_while_def Let_def)

lemma rest_read_while [simp]: "rest (snd (read_while P c)) = dropWhile P (rest c)"
  by (simp add: read_while_def Let_def dropWhile_eq_drop)

lemma input_skip_space [simp, cursor_input]: "input (skip_space c) = input c"
  by (simp add: skip_space_def)

lemma rest_skip_space [simp]: "rest (skip_space c) = dropWhile is_space (rest c)"
  by (simp add: skip_space_def)

lemma accept_True_iff:
  "accept ch c = (True, c') \<longleftrightarrow> (\<exists>r. rest c = ch # r) \<and> c' = advance 1 c"
  by (auto simp: accept_def split: list.splits)

lemma accept_False_iff:
  "accept ch c = (False, c') \<longleftrightarrow> c' = c \<and> \<not> (\<exists>r. rest c = ch # r)"
  by (auto simp: accept_def split: list.splits)

lemma accept_cases:
  obtains r where "rest c = ch # r" and "accept ch c = (True, advance 1 c)"
  | "\<not> (\<exists>r. rest c = ch # r)" and "accept ch c = (False, c)"
  by (cases "rest c") (auto simp: accept_def)

lemma input_accept [simp, cursor_input]: "input (snd (accept ch c)) = input c"
  by (cases rule: accept_cases [of c ch]) simp_all

lemma expect_Inr_iff:
  "expect ch c = (Inr u, c') \<longleftrightarrow> accept ch c = (True, c')"
  by (auto simp: expect_def split: prod.splits bool.splits)

lemma expect_Inl_iff:
  "expect ch c = (Inl e, c') \<longleftrightarrow> e = ExpectedChar ch \<and> accept ch c = (False, c')"
  by (auto simp: expect_def split: prod.splits bool.splits)

lemma seek_True_iff:
  "seek ch c = (True, c') \<longleftrightarrow>
     ch \<in> set (rest c) \<and> c' = advance (length (takeWhile (\<lambda>x. x \<noteq> ch) (rest c))) c"
  by (auto simp: seek_def Let_def)

lemma seek_False_iff:
  "seek ch c = (False, c') \<longleftrightarrow> ch \<notin> set (rest c) \<and> c' = c"
  by (auto simp: seek_def Let_def)

lemma rest_seek_True:
  "seek ch c = (True, c') \<Longrightarrow> rest c' = dropWhile (\<lambda>x. x \<noteq> ch) (rest c)"
  by (auto simp: seek_True_iff dropWhile_eq_drop)

lemma input_seek [simp, cursor_input]: "input (snd (seek ch c)) = input c"
  by (simp add: seek_def Let_def)

lemma input_read [simp, cursor_input]: "input (snd (read c)) = input c"
  by (simp add: read_def split: list.splits)

subsection \<open>What each operation consumes\<close>

lemma consumed_Nil [simp]: "consumed c [] c' \<longleftrightarrow> c' = c"
  by (auto simp: consumed_def)

lemma consumed_iff:
  "consumed c u c' \<longleftrightarrow> rest c = u @ rest c' \<and> c' = advance (length u) c"
proof
  assume "consumed c u c'"
  then have "take (length u) (rest c) = u" and c': "c' = advance (length u) c"
    by (simp_all add: consumed_def)
  then have r: "rest c = u @ drop (length u) (rest c)"
    by (metis append_take_drop_id)
  from c' have r': "rest c' = drop (length u) (rest c)" by simp
  from r r' c' show "rest c = u @ rest c' \<and> c' = advance (length u) c" by argo
next
  assume h: "rest c = u @ rest c' \<and> c' = advance (length u) c"
  have t: "take (length u) (u @ rest c') = u" by simp
  from h t show "consumed c u c'" unfolding consumed_def by argo
qed

lemma consumed_rest: "consumed c u c' \<Longrightarrow> rest c = u @ rest c'"
  using consumed_iff by blast

lemma consumed_input [cursor_input]: "consumed c u c' \<Longrightarrow> input c' = input c"
  by (simp add: consumed_def)

lemma consumed_offset: "consumed c u c' \<Longrightarrow> offset c' = offset c + length u"
  by (simp add: consumed_def)

lemma consumed_length_rest [cursor_rest]:
  "consumed c u c' \<Longrightarrow> length (rest c) = length u + length (rest c')"
  by (metis consumed_rest length_append)

lemma consumed_trans:
  assumes h1: "consumed c u c1" and h2: "consumed c1 w c2"
  shows "consumed c (u @ w) c2"
proof -
  have "rest c = (u @ w) @ rest c2"
    using consumed_rest [OF h1] consumed_rest [OF h2] by simp
  moreover have "c2 = advance (length (u @ w)) c"
    using h1 h2 by (simp add: consumed_def)
  ultimately show ?thesis unfolding consumed_iff by blast
qed

lemma consumed_offset_le:
  "consumed c u c' \<Longrightarrow> offset c \<le> length (input c) \<Longrightarrow> offset c' \<le> length (input c')"
proof -
  assume h: "consumed c u c'" and le: "offset c \<le> length (input c)"
  have "length u \<le> length (input c) - offset c"
    using consumed_length_rest [OF h] by (simp add: length_rest)
  with le consumed_offset [OF h] show ?thesis by (simp add: consumed_input [OF h])
qed

lemma read_while_consumed:
  "read_while P c = (s, c') \<Longrightarrow> s = takeWhile P (rest c) \<and> consumed c s c'"
  by (simp add: read_while_eq consumed_def takeWhile_eq_take [symmetric])

lemma skip_space_consumed: "consumed c (takeWhile is_space (rest c)) (skip_space c)"
  by (simp add: skip_space_def read_while_def Let_def consumed_def takeWhile_eq_take [symmetric])

lemma accept_True_consumed: "accept ch c = (True, c') \<Longrightarrow> consumed c [ch] c'"
  by (auto simp: accept_True_iff consumed_def)

lemma accept_consumed: "accept ch c = (b, c') \<Longrightarrow> \<exists>u. consumed c u c'"
  by (cases b) (auto simp: accept_False_iff dest: accept_True_consumed intro: consumed_Nil [THEN iffD2])

lemma seek_True_consumed:
  "seek ch c = (True, c') \<Longrightarrow>
     consumed c (takeWhile (\<lambda>x. x \<noteq> ch) (rest c)) c' \<and> (\<exists>r. rest c' = ch # r)"
  using dropWhile_neq_Cons [of ch "rest c"]
  by (auto simp: seek_True_iff consumed_def dropWhile_eq_drop takeWhile_eq_take [symmetric])

lemma read_Cons: "rest c = x # r \<Longrightarrow> read c = (Some x, advance 1 c)"
  by (simp add: read_def)

lemma read_consumed: "rest c = x # r \<Longrightarrow> consumed c [x] (snd (read c))"
  by (simp add: read_Cons consumed_def)

lemma consumed_le [cursor_rest]: "consumed c u c' \<Longrightarrow> length (rest c') \<le> length (rest c)"
  by (simp add: consumed_length_rest)

lemma consumed_less: "consumed c u c' \<Longrightarrow> u \<noteq> [] \<Longrightarrow> length (rest c') < length (rest c)"
  by (simp add: consumed_length_rest)

lemma read_while_rest: "read_while P c = (s, c') \<Longrightarrow> rest c' = dropWhile P (rest c)"
  by (auto simp: read_while_eq dropWhile_eq_drop)

lemma slice_consumed: "consumed c v c' \<Longrightarrow> slice c' (offset c) (offset c') = v"
proof -
  assume h: "consumed c v c'"
  have "drop (offset c) (input c') = v @ rest c'"
    using consumed_rest [OF h] consumed_input [OF h] by (simp add: rest_def)
  then show ?thesis by (simp add: slice_def consumed_offset [OF h])
qed

lemma moves_refl: "moves c c"
  using consumed_Nil by blast

lemma moves_trans: "moves c c1 \<Longrightarrow> moves c1 c2 \<Longrightarrow> moves c c2"
  by (blast intro: consumed_trans)

lemma skip_space_moves: "moves c (skip_space c)"
  using skip_space_consumed by blast

lemma skip_space_idle: "(\<forall>x r. rest c = x # r \<longrightarrow> \<not> is_space x) \<Longrightarrow> skip_space c = c"
  using skip_space_consumed [of c] by (cases "rest c") auto

lemma consumed_drop: "consumed c u c' \<Longrightarrow> drop (offset c) (input c) = u @ rest c'"
  using consumed_rest [of c u c'] by (simp add: rest_def)

lemma rest_append_nth:
  assumes r: "rest c = u @ v" and i: "offset c \<le> i" "i < offset c + length u"
  shows "input c ! i \<in> set u"
proof -
  have "length u \<le> length (input c) - offset c" using r by (simp add: length_rest [symmetric])
  with i have "i < length (input c)" by linarith
  with i have "input c ! i = rest c ! (i - offset c)" by (simp add: rest_def)
  moreover have k: "i - offset c < length u" using i by linarith
  ultimately have "input c ! i = u ! (i - offset c)" using r by (simp add: nth_append)
  with k show ?thesis by simp
qed

end
