(* ===== verification/TokenScanner.thy ===== *)
theory TokenScanner
  imports Cursor "HOL-Library.Char_ord"
begin

text \<open>
  The token scanner of \<^verbatim>\<open>src/src/lib/token-scanner.js\<close>. \<^verbatim>\<open>scanFunc(css)\<close> creates
  one cursor over the text and returns a closure; every call of the closure finds the next
  \<^verbatim>\<open>$\<close> marker and scans one placeholder \<^verbatim>\<open>$name.path(arg, ...)\<close> with the inner
  closures \<^verbatim>\<open>scanName\<close>, \<^verbatim>\<open>scanParams\<close>, \<^verbatim>\<open>scanArgs\<close> and \<^verbatim>\<open>scanArg\<close>, which
  share that cursor. Here the shared cursor is passed explicitly: \<open>scan_func\<close> is the
  initial state of the producer and \<open>scan_func_next\<close> is the closure's body, a step from
  one cursor state to the next that yields a token, the end sentinel (\<^verbatim>\<open>null\<close>, here
  \<open>None\<close>) or an error. \<^verbatim>\<open>scanAll\<close>, the loop that drains the producer, is in
  theory \<open>ScanAll\<close>.
\<close>

record token =
  tk_start :: nat
  tk_end :: nat
  tk_raw :: string
  tk_path :: "string list"
  tk_args :: "string list"

text \<open>The character classes of the two \<^verbatim>\<open>readWhile\<close> calls.\<close>

definition name_char :: "char \<Rightarrow> bool" where
  "name_char ch \<longleftrightarrow>
     (CHR ''a'' \<le> ch \<and> ch \<le> CHR ''z'') \<or> (CHR ''A'' \<le> ch \<and> ch \<le> CHR ''Z'') \<or>
     (CHR ''0'' \<le> ch \<and> ch \<le> CHR ''9'') \<or> ch = CHR ''_'' \<or> ch = CHR ''-'' \<or> ch = CHR ''.''"

definition arg_char :: "char \<Rightarrow> bool" where
  "arg_char ch \<longleftrightarrow> ch \<noteq> CHR '','' \<and> ch \<noteq> CHR '')''"

text \<open>
  JavaScript's \<^verbatim>\<open>String.prototype.split\<close> with a one-character separator: the pieces
  between separators, empty ones included, so \<^verbatim>\<open>''.split('.')\<close> is \<open>[[]]\<close>.
\<close>

fun split_on :: "char \<Rightarrow> string \<Rightarrow> string list" where
  "split_on d [] = [[]]"
| "split_on d (x # xs) =
     (let r = split_on d xs in if x = d then [] # r else (x # hd r) # tl r)"

text \<open>\<^verbatim>\<open>Array.prototype.join\<close> with the same separator, the inverse that \<open>split_on\<close> is
  checked against.\<close>

fun join_on :: "char \<Rightarrow> string list \<Rightarrow> string" where
  "join_on d [] = []"
| "join_on d [w] = w"
| "join_on d (w # v # ws) = w @ d # join_on d (v # ws)"

definition scan_name :: "cursor \<Rightarrow> string \<times> cursor" where
  "scan_name c = (case read_while name_char c of (name, c1) \<Rightarrow> (name, skip_space c1))"

definition scan_arg :: "string \<Rightarrow> cursor \<Rightarrow> (cursor, string) outcome" where
  "scan_arg name c = (case read_while arg_char c of
       (arg, c1) \<Rightarrow> if arg = [] then (Inl (MissingArgument name), c1)
                    else (Inr arg, skip_space c1))"

function scan_args_loop ::
  "string \<Rightarrow> string list \<Rightarrow> cursor \<Rightarrow> (cursor, string list) outcome" where
  "scan_args_loop name args c = (case scan_arg name c of
       (Inl e, c1) \<Rightarrow> (Inl e, c1)
     | (Inr arg, c1) \<Rightarrow> (case accept (CHR '','') c1 of
          (False, c2) \<Rightarrow> (Inr (args @ [arg]), c2)
        | (True, c2) \<Rightarrow> scan_args_loop name (args @ [arg]) (skip_space c2)))"
  by pat_completeness auto

definition scan_args :: "string \<Rightarrow> cursor \<Rightarrow> (cursor, string list) outcome" where
  "scan_args name c = scan_args_loop name [] c"

definition scan_params :: "string \<Rightarrow> cursor \<Rightarrow> (cursor, string list) outcome" where
  "scan_params name c = (case accept (CHR ''('') c of
       (False, c1) \<Rightarrow> (Inr [], c1)
     | (True, c1) \<Rightarrow> (case accept (CHR '')'') (skip_space c1) of
          (True, c2) \<Rightarrow> (Inr [], c2)
        | (False, c2) \<Rightarrow>
            ex_bind (scan_args name c2) (\<lambda>args c3.
              ex_bind (expect (CHR '')'') (skip_space c3)) (\<lambda>_ c4. (Inr args, c4)))))"

definition scan_func :: "string \<Rightarrow> cursor" where
  "scan_func css = new_scanner css"

definition scan_func_next :: "cursor \<Rightarrow> (cursor, token option) outcome" where
  "scan_func_next c = (case seek (CHR ''$'') c of
       (False, c1) \<Rightarrow> (Inr None, c1)
     | (True, c1) \<Rightarrow>
         (let start = index c1;
              c2 = snd (read c1);
              (name, c3) = scan_name c2
          in ex_bind (scan_params name c3) (\<lambda>args c4.
               (let stop = index c4
                in (Inr (Some \<lparr>tk_start = start, tk_end = stop, tk_raw = slice c4 start stop,
                               tk_path = split_on (CHR ''.'') name, tk_args = args\<rparr>), c4)))))"

subsection \<open>One argument, and termination of the argument loop\<close>

lemma marker_not_name_char: "\<not> name_char CHR ''$''"
  by (simp add: name_char_def)

lemma marker_not_space: "\<not> is_space CHR ''$''"
  by (simp add: is_space_def)

lemma no_space_after_arg: "takeWhile is_space (dropWhile arg_char xs) = []"
  by (induction xs) (auto simp: arg_char_def is_space_def)

lemma skip_space_after_arg: "skip_space (snd (read_while arg_char c)) = snd (read_while arg_char c)"
proof -
  have "takeWhile is_space (dropWhile arg_char (rest c)) = []"
    by (rule no_space_after_arg)
  then show ?thesis
    using skip_space_consumed [of "snd (read_while arg_char c)"] by simp
qed

lemma scan_name_consumed:
  assumes "scan_name c = (name, c')"
  shows "name = takeWhile name_char (rest c) \<and>
         consumed c (name @ takeWhile is_space (dropWhile name_char (rest c))) c'"
proof -
  obtain c1 where rw: "read_while name_char c = (name, c1)" and c': "c' = skip_space c1"
    using assms by (cases "read_while name_char c") (simp add: scan_name_def)
  have n: "name = takeWhile name_char (rest c)" and cons1: "consumed c name c1"
    using read_while_consumed [OF rw] by blast+
  have "consumed c1 (takeWhile is_space (dropWhile name_char (rest c))) c'"
    using skip_space_consumed [of c1] read_while_rest [OF rw] c' by simp
  with n cons1 show ?thesis by (blast intro: consumed_trans)
qed

lemma scan_arg_Inr:
  assumes "scan_arg name c = (Inr arg, c')"
  shows "arg = takeWhile arg_char (rest c) \<and> arg \<noteq> [] \<and> consumed c arg c' \<and>
         rest c' = dropWhile arg_char (rest c)"
proof -
  obtain c1 where rw: "read_while arg_char c = (arg, c1)" and ne: "arg \<noteq> []"
    and c': "c' = skip_space c1"
    using assms by (cases "read_while arg_char c") (simp add: scan_arg_def split: if_splits)
  have "c' = c1" using skip_space_after_arg [of c] rw c' by simp
  with read_while_consumed [OF rw] read_while_rest [OF rw] ne show ?thesis by blast
qed

lemma scan_arg_Inl:
  assumes "scan_arg name c = (Inl e, c')"
  shows "e = MissingArgument name \<and> c' = c \<and> takeWhile arg_char (rest c) = []"
  using assms
  by (cases "read_while arg_char c") (auto simp: scan_arg_def read_while_eq split: if_splits)

lemma scan_arg_consumed: "scan_arg name c = (r, c') \<Longrightarrow> \<exists>u. consumed c u c'"
  by (cases r) (auto dest!: scan_arg_Inr scan_arg_Inl intro: exI [where x = "[]"])

termination scan_args_loop
proof (relation "measure (\<lambda>(name, args, c). length (rest c))")
  fix name args c r c1 arg b c2
  assume a1: "(r, c1) = scan_arg name c" and "r = Inr arg"
    and a2: "(b, c2) = accept (CHR '','') c1" and "b = True"
  have "length (rest c1) < length (rest c)"
    using scan_arg_Inr [OF a1 [symmetric, unfolded \<open>r = Inr arg\<close>]] by (blast intro: consumed_less)
  moreover have "length (rest c2) < length (rest c1)"
    using accept_True_consumed [OF a2 [symmetric, unfolded \<open>b = True\<close>]] by (simp add: consumed_less)
  moreover have "length (rest (skip_space c2)) \<le> length (rest c2)"
    using skip_space_consumed by (rule consumed_le)
  ultimately show "((name, args @ [arg], skip_space c2), name, args, c)
      \<in> measure (\<lambda>(name, args, c). length (rest c))"
    by simp
qed simp

declare scan_args_loop.simps [simp del]

lemma dropWhile_arg_char:
  "dropWhile arg_char xs = [] \<or> (\<exists>r. dropWhile arg_char xs = CHR '','' # r) \<or>
   (\<exists>r. dropWhile arg_char xs = CHR '')'' # r)"
  by (induction xs) (auto simp: arg_char_def)

subsection \<open>The argument loop\<close>

text \<open>
  On success the loop has appended one or more arguments, each a non-empty run of
  characters other than a comma or closing parenthesis, and it stops in front of a closing
  parenthesis or at the end of the text: the \<^verbatim>\<open>skipSpace\<close> after an argument never
  moves, since the argument's read stopped at a comma, a parenthesis or the end.
\<close>

lemma scan_args_loop_Inr:
  "scan_args_loop name args c = (Inr as, c') \<Longrightarrow>
     \<exists>new u. as = args @ new \<and> new \<noteq> [] \<and> (\<forall>a \<in> set new. a \<noteq> [] \<and> (\<forall>x \<in> set a. arg_char x)) \<and>
       consumed c u c' \<and> (rest c' = [] \<or> (\<exists>r. rest c' = CHR '')'' # r))"
proof (induction name args c arbitrary: as c' rule: scan_args_loop.induct)
  case (1 name args c)
  obtain r1 c1 where s1: "scan_arg name c = (r1, c1)" by fastforce
  obtain arg where r1: "r1 = Inr arg"
    using "1.prems" s1 by (cases r1) (auto simp: scan_args_loop.simps [of name args c])
  from scan_arg_Inr [OF s1 [unfolded r1]] have arg: "arg \<noteq> []" "\<forall>x \<in> set arg. arg_char x"
    and cons1: "consumed c arg c1" and rest1: "rest c1 = dropWhile arg_char (rest c)"
    by (auto dest: set_takeWhileD)
  obtain b c2 where s2: "accept (CHR '','') c1 = (b, c2)" by fastforce
  show ?case
  proof (cases b)
    case True
    with "1.prems" s1 r1 s2 have loop: "scan_args_loop name (args @ [arg]) (skip_space c2) = (Inr as, c')"
      by (simp add: scan_args_loop.simps [of name args c])
    obtain new u where IH: "as = (args @ [arg]) @ new" "\<forall>a \<in> set new. a \<noteq> [] \<and> (\<forall>x \<in> set a. arg_char x)"
      "consumed (skip_space c2) u c'" "rest c' = [] \<or> (\<exists>r. rest c' = CHR '')'' # r)"
      using "1.IH" [OF s1 [symmetric] r1 s2 [symmetric]] True loop by blast
    have "accept (CHR '','') c1 = (True, c2)" using s2 True by simp
    then have "consumed c (arg @ [CHR '','']) c2"
      using cons1 accept_True_consumed by (blast intro: consumed_trans)
    then have "consumed c ((arg @ [CHR '','']) @ takeWhile is_space (rest c2) @ u) c'"
      using skip_space_consumed [of c2] IH(3) by (blast intro: consumed_trans)
    with IH arg show ?thesis by (intro exI [of _ "arg # new"]) auto
  next
    case False
    with "1.prems" s1 r1 s2 have "as = args @ [arg]" and "c' = c1"
      by (simp_all add: scan_args_loop.simps [of name args c] accept_False_iff)
    moreover have "rest c1 = [] \<or> (\<exists>r. rest c1 = CHR '')'' # r)"
      using dropWhile_arg_char [of "rest c"] s2 False rest1 by (auto simp: accept_False_iff)
    ultimately show ?thesis using arg cons1 by (intro exI [of _ "[arg]"]) auto
  qed
qed

lemma scan_args_loop_Inl:
  "scan_args_loop name args c = (Inl e, c') \<Longrightarrow> e = MissingArgument name \<and> (\<exists>u. consumed c u c')"
proof (induction name args c arbitrary: c' rule: scan_args_loop.induct)
  case (1 name args c)
  obtain r1 c1 where s1: "scan_arg name c = (r1, c1)" by fastforce
  show ?case
  proof (cases r1)
    case (Inl e1)
    with "1.prems" s1 scan_arg_Inl [of name c e1 c1] show ?thesis
      by (auto simp: scan_args_loop.simps [of name args c] intro: exI [where x = "[]"])
  next
    case (Inr arg)
    have cons1: "consumed c arg c1" using scan_arg_Inr [OF s1 [unfolded Inr]] by blast
    obtain b c2 where s2: "accept (CHR '','') c1 = (b, c2)" by fastforce
    have b: "b" and loop: "scan_args_loop name (args @ [arg]) (skip_space c2) = (Inl e, c')"
      using "1.prems" s1 Inr s2 by (simp_all add: scan_args_loop.simps [of name args c] split: if_splits bool.splits)
    then have "e = MissingArgument name" and "\<exists>u. consumed (skip_space c2) u c'"
      using "1.IH" [OF s1 [symmetric] Inr s2 [symmetric]] by simp_all
    moreover have "accept (CHR '','') c1 = (True, c2)" using s2 b by simp
    then have "consumed c ((arg @ [CHR '','']) @ takeWhile is_space (rest c2)) (skip_space c2)"
      using cons1 accept_True_consumed skip_space_consumed [of c2]
      by (blast intro: consumed_trans)
    ultimately show ?thesis by (blast intro: consumed_trans)
  qed
qed

lemma scan_args_loop_consumed: "scan_args_loop name args c = (r, c') \<Longrightarrow> \<exists>u. consumed c u c'"
  by (cases r) (blast dest: scan_args_loop_Inl scan_args_loop_Inr)+

lemma skip_space_nonspace: "rest (skip_space c) = x # r \<Longrightarrow> \<not> is_space x"
  using hd_dropWhile [of is_space "rest c"] by simp

lemma scan_args_loop_nonspace:
  "scan_args_loop name args c = (Inr as, c') \<Longrightarrow> (\<forall>x r. rest c = x # r \<longrightarrow> \<not> is_space x) \<Longrightarrow>
     \<forall>a \<in> set (drop (length args) as). \<not> is_space (hd a)"
proof (induction name args c arbitrary: as c' rule: scan_args_loop.induct)
  case (1 name args c)
  obtain r1 c1 where s1: "scan_arg name c = (r1, c1)" by fastforce
  obtain arg where r1: "r1 = Inr arg"
    using "1.prems" s1 by (cases r1) (auto simp: scan_args_loop.simps [of name args c])
  have arg: "arg = takeWhile arg_char (rest c)" "arg \<noteq> []"
    using scan_arg_Inr [OF s1 [unfolded r1]] by blast+
  then obtain r where "rest c = hd arg # r" and "hd arg = hd (rest c)"
    by (cases "rest c") (auto split: if_splits)
  with "1.prems"(2) have hd_arg: "\<not> is_space (hd arg)" by metis
  obtain b c2 where s2: "accept (CHR '','') c1 = (b, c2)" by fastforce
  show ?case
  proof (cases b)
    case True
    with "1.prems"(1) s1 r1 s2 have loop: "scan_args_loop name (args @ [arg]) (skip_space c2) = (Inr as, c')"
      by (simp add: scan_args_loop.simps [of name args c])
    have "\<forall>a \<in> set (drop (length (args @ [arg])) as). \<not> is_space (hd a)"
      using "1.IH" [OF s1 [symmetric] r1 s2 [symmetric] _ loop] True skip_space_nonspace by blast
    moreover obtain new where "as = args @ [arg] @ new"
      using scan_args_loop_Inr [OF loop] by auto
    ultimately show ?thesis using hd_arg by simp
  next
    case False
    with "1.prems"(1) s1 r1 s2 have "as = args @ [arg]"
      by (simp add: scan_args_loop.simps [of name args c])
    with hd_arg show ?thesis by simp
  qed
qed

subsection \<open>The parameter list\<close>

text \<open>The five ways through \<^verbatim>\<open>scanParams\<close>, in the order of its code.\<close>

lemma scan_params_cases [consumes 1, case_names NoParams Empty ArgsError CloseMissing Closed]:
  assumes "scan_params name c = (r, c')"
  obtains (NoParams) "accept (CHR ''('') c = (False, c)" and "r = Inr []" and "c' = c"
  | (Empty) c1 where "accept (CHR ''('') c = (True, c1)"
      and "accept (CHR '')'') (skip_space c1) = (True, c')" and "r = Inr []"
  | (ArgsError) c1 e where "accept (CHR ''('') c = (True, c1)"
      and "accept (CHR '')'') (skip_space c1) = (False, skip_space c1)"
      and "scan_args name (skip_space c1) = (Inl e, c')" and "r = Inl e"
  | (CloseMissing) c1 args c3 where "accept (CHR ''('') c = (True, c1)"
      and "accept (CHR '')'') (skip_space c1) = (False, skip_space c1)"
      and "scan_args name (skip_space c1) = (Inr args, c3)"
      and "accept (CHR '')'') (skip_space c3) = (False, c')"
      and "r = Inl (ExpectedChar (CHR '')''))"
  | (Closed) c1 args c3 where "accept (CHR ''('') c = (True, c1)"
      and "accept (CHR '')'') (skip_space c1) = (False, skip_space c1)"
      and "scan_args name (skip_space c1) = (Inr args, c3)"
      and "accept (CHR '')'') (skip_space c3) = (True, c')" and "r = Inr args"
proof -
  obtain b1 c1 where a1: "accept (CHR ''('') c = (b1, c1)" by fastforce
  obtain b2 c2 where a2: "accept (CHR '')'') (skip_space c1) = (b2, c2)" by fastforce
  show thesis
  proof (cases b1)
    case False
    with a1 have a1': "accept (CHR ''('') c = (False, c)" by (simp add: accept_False_iff)
    with assms show thesis by (intro NoParams) (auto simp: scan_params_def)
  next
    case b1: True
    show thesis
    proof (cases b2)
      case True
      with a1 a2 b1 assms show thesis by (intro Empty) (auto simp: scan_params_def)
    next
      case False
      with a2 have c2: "c2 = skip_space c1" by (simp add: accept_False_iff)
      from assms a1 a2 b1 False
      have "ex_bind (scan_args name c2) (\<lambda>args c3.
              ex_bind (expect (CHR '')'') (skip_space c3)) (\<lambda>_ c4. (Inr args, c4))) = (r, c')"
        by (simp add: scan_params_def)
      then show thesis
      proof (cases rule: ex_bind_cases)
        case (Inl e)
        with a1 a2 b1 False c2 show thesis by (intro ArgsError) auto
      next
        case (Inr args c3)
        from Inr(2) show thesis
        proof (cases rule: ex_bind_cases)
          case (Inl e)
          with Inr(1) a1 a2 b1 False c2 show thesis
            by (intro CloseMissing) (auto simp: expect_Inl_iff)
        next
          case (Inr u c4)
          with \<open>scan_args name c2 = (Inr args, c3)\<close> a1 a2 b1 False c2 show thesis
            by (intro Closed) (auto simp: expect_Inr_iff)
        qed
      qed
    qed
  qed
qed

lemma scan_args_Inr:
  "scan_args name c = (Inr args, c') \<Longrightarrow>
     args \<noteq> [] \<and> (\<forall>a \<in> set args. a \<noteq> [] \<and> (\<forall>x \<in> set a. arg_char x)) \<and>
     moves c c' \<and> (rest c' = [] \<or> (\<exists>r. rest c' = CHR '')'' # r))"
  unfolding scan_args_def by (drule scan_args_loop_Inr) auto

lemma scan_args_moves: "scan_args name c = (r, c') \<Longrightarrow> moves c c'"
  unfolding scan_args_def by (rule scan_args_loop_consumed)

lemma scan_params_no_paren:
  "\<not> (\<exists>r. rest c = CHR ''('' # r) \<Longrightarrow> scan_params name c = (Inr [], c)"
proof -
  assume "\<not> (\<exists>r. rest c = CHR ''('' # r)"
  then have "accept (CHR ''('') c = (False, c)" by (simp add: accept_False_iff)
  then show ?thesis by (simp add: scan_params_def)
qed

lemma scan_params_after_paren:
  assumes sp: "scan_params name c = (r, c')" and a1: "accept (CHR ''('') c = (True, c1)"
  shows "moves (skip_space c1) c'"
  using sp
proof (cases rule: scan_params_cases)
  case NoParams
  with a1 show ?thesis by simp
next
  case (Empty c1')
  with a1 show ?thesis using accept_consumed by auto
next
  case (ArgsError c1' e)
  with a1 show ?thesis using scan_args_moves by auto
next
  case (CloseMissing c1' args c3)
  with a1 have "moves (skip_space c1) c3" using scan_args_moves by auto
  then show ?thesis
    using moves_trans [OF skip_space_moves accept_consumed [OF CloseMissing(4)]] by (rule moves_trans)
next
  case (Closed c1' args c3)
  with a1 have "moves (skip_space c1) c3" using scan_args_moves by auto
  then show ?thesis
    using moves_trans [OF skip_space_moves accept_consumed [OF Closed(4)]] by (rule moves_trans)
qed

lemma scan_params_shape:
  assumes "scan_params name c = (r, c')"
  shows "(c' = c \<and> r = Inr [] \<and> \<not> (\<exists>x. rest c = CHR ''('' # x)) \<or>
         (\<exists>u. consumed c (CHR ''('' # u) c')"
proof (cases "\<exists>x. rest c = CHR ''('' # x")
  case True
  then have a1: "accept (CHR ''('') c = (True, advance 1 c)" by (auto simp: accept_True_iff)
  obtain u where "consumed (advance 1 c) u c'"
    using moves_trans [OF skip_space_moves scan_params_after_paren [OF assms a1]] by blast
  then have "consumed c ([CHR ''('']  @ u) c'"
    using accept_True_consumed [OF a1] by (blast intro: consumed_trans)
  then show ?thesis by auto
next
  case False
  with assms scan_params_no_paren [of c name] show ?thesis by simp
qed

lemma scan_params_consumed: "scan_params name c = (r, c') \<Longrightarrow> moves c c'"
  by (drule scan_params_shape) (auto intro: moves_refl)

lemma scan_params_Inl:
  assumes "scan_params name c = (Inl e, c')"
  shows "e = MissingArgument name \<or> (e = ExpectedChar (CHR '')'') \<and> rest c' = [])"
  using assms
proof (cases rule: scan_params_cases)
  case (ArgsError c1 e')
  then show ?thesis using scan_args_loop_Inl by (auto simp: scan_args_def)
next
  case (CloseMissing c1 args c3)
  have "rest c3 = [] \<or> (\<exists>r. rest c3 = CHR '')'' # r)"
    using scan_args_Inr [OF CloseMissing(3)] by blast
  moreover have "skip_space c3 = c3"
    using calculation by (intro skip_space_idle) (auto simp: is_space_def)
  ultimately show ?thesis using CloseMissing(4,5) by (auto simp: accept_False_iff)
qed simp_all

lemma scan_params_Inr:
  assumes "scan_params name c = (Inr args, c')"
  shows "\<forall>a \<in> set args. a \<noteq> [] \<and> (\<forall>x \<in> set a. arg_char x) \<and> \<not> is_space (hd a)"
  using assms
proof (cases rule: scan_params_cases)
  case (Closed c1 args' c3)
  have "\<forall>a \<in> set args'. \<not> is_space (hd a)"
    using scan_args_loop_nonspace [of name "[]" "skip_space c1" args' c3] Closed(3)
      skip_space_nonspace by (simp add: scan_args_def)
  with scan_args_Inr [OF Closed(3)] Closed(5) show ?thesis by simp
qed simp_all

subsection \<open>One step of the producer\<close>

text \<open>The three ways through the closure returned by \<^verbatim>\<open>scanFunc\<close>.\<close>

lemma scan_func_next_cases [consumes 1, case_names Exhausted Token Failed]:
  assumes "scan_func_next c = (r, c')"
  obtains (Exhausted) "CHR ''$'' \<notin> set (rest c)" and "r = Inr None" and "c' = c"
  | (Token) c1 name c3 args where "seek (CHR ''$'') c = (True, c1)"
      and "scan_name (snd (read c1)) = (name, c3)" and "scan_params name c3 = (Inr args, c')"
      and "r = Inr (Some \<lparr>tk_start = offset c1, tk_end = offset c',
                          tk_raw = slice c' (offset c1) (offset c'),
                          tk_path = split_on (CHR ''.'') name, tk_args = args\<rparr>)"
  | (Failed) c1 name c3 e where "seek (CHR ''$'') c = (True, c1)"
      and "scan_name (snd (read c1)) = (name, c3)" and "scan_params name c3 = (Inl e, c')"
      and "r = Inl e"
proof -
  obtain b c1 where sk: "seek (CHR ''$'') c = (b, c1)" by fastforce
  show thesis
  proof (cases b)
    case False
    with sk have "seek (CHR ''$'') c = (False, c)" and "CHR ''$'' \<notin> set (rest c)"
      by (simp_all add: seek_False_iff)
    with assms show thesis by (intro Exhausted) (auto simp: scan_func_next_def)
  next
    case True
    obtain name c3 where sn: "scan_name (snd (read c1)) = (name, c3)" by fastforce
    from assms sk True sn
    have "ex_bind (scan_params name c3) (\<lambda>args c4.
            (Inr (Some \<lparr>tk_start = offset c1, tk_end = offset c4,
                        tk_raw = slice c4 (offset c1) (offset c4),
                        tk_path = split_on (CHR ''.'') name, tk_args = args\<rparr>), c4)) = (r, c')"
      by (simp add: scan_func_next_def index_def Let_def)
    then show thesis
    proof (cases rule: ex_bind_cases)
      case (Inl e)
      with sk True sn show thesis by (intro Failed) auto
    next
      case (Inr args c4)
      with sk True sn show thesis by (intro Token) auto
    qed
  qed
qed

lemma scan_func_next_None:
  "scan_func_next c = (Inr None, c') \<Longrightarrow> c' = c \<and> CHR ''$'' \<notin> set (rest c)"
  by (erule scan_func_next_cases) simp_all

lemma marker_name_consumed:
  assumes sk: "seek (CHR ''$'') c = (True, c1)" and sn: "scan_name (snd (read c1)) = (name, c3)"
  obtains sp where "consumed c (takeWhile (\<lambda>x. x \<noteq> CHR ''$'') (rest c)) c1"
    and "consumed c1 (CHR ''$'' # name @ sp) c3"
    and "takeWhile name_char (name @ sp @ rest c3) = name"
    and "\<forall>x \<in> set name. name_char x" and "\<forall>x \<in> set sp. is_space x"
proof -
  obtain r where cons1: "consumed c (takeWhile (\<lambda>x. x \<noteq> CHR ''$'') (rest c)) c1"
    and r1: "rest c1 = CHR ''$'' # r"
    using seek_True_consumed [OF sk] by blast
  have cons2: "consumed c1 [CHR ''$''] (snd (read c1))" using r1 by (rule read_consumed)
  obtain sp where n: "name = takeWhile name_char (rest (snd (read c1)))"
    and cons3: "consumed (snd (read c1)) (name @ sp) c3" and sp: "\<forall>x \<in> set sp. is_space x"
    using scan_name_consumed [OF sn] by (blast dest: set_takeWhileD)
  have "consumed c1 ([CHR ''$''] @ name @ sp) c3" using cons2 cons3 by (rule consumed_trans)
  moreover have "takeWhile name_char (name @ sp @ rest c3) = name"
    using n consumed_rest [OF cons3] by simp
  moreover have "\<forall>x \<in> set name. name_char x" using n by (auto dest: set_takeWhileD)
  ultimately show thesis using cons1 sp that by simp
qed

lemma scan_func_next_moves:
  assumes "scan_func_next c = (r, c')"
  shows "moves c c'"
  using assms
proof (cases rule: scan_func_next_cases)
  case Exhausted
  then show ?thesis using moves_refl by simp
next
  case (Token c1 name c3 args)
  from Token(1,2) obtain sp where "consumed c (takeWhile (\<lambda>x. x \<noteq> CHR ''$'') (rest c)) c1"
    and "consumed c1 (CHR ''$'' # name @ sp) c3" by (rule marker_name_consumed)
  then have "moves c c3" by (blast intro: consumed_trans)
  then show ?thesis using scan_params_consumed [OF Token(3)] by (rule moves_trans)
next
  case (Failed c1 name c3 e)
  from Failed(1,2) obtain sp where "consumed c (takeWhile (\<lambda>x. x \<noteq> CHR ''$'') (rest c)) c1"
    and "consumed c1 (CHR ''$'' # name @ sp) c3" by (rule marker_name_consumed)
  then have "moves c c3" by (blast intro: consumed_trans)
  then show ?thesis using scan_params_consumed [OF Failed(3)] by (rule moves_trans)
qed

text \<open>
  A token is the text from a marker to the cursor after the step: the step skipped a
  stretch with no marker, then consumed exactly the token's raw text.
\<close>

lemma scan_func_next_Some:
  assumes "scan_func_next c = (Inr (Some tk), c')"
  shows "\<exists>skip. CHR ''$'' \<notin> set skip \<and> consumed c (skip @ tk_raw tk) c' \<and>
           tk_start tk = offset c + length skip \<and> tk_end tk = offset c' \<and>
           hd (tk_raw tk) = CHR ''$'' \<and> tk_raw tk \<noteq> [] \<and>
           tk_path tk = split_on (CHR ''.'') (takeWhile name_char (tl (tk_raw tk))) \<and>
           (\<forall>a \<in> set (tk_args tk). a \<noteq> [] \<and> (\<forall>x \<in> set a. arg_char x) \<and> \<not> is_space (hd a))"
  using assms
proof (cases rule: scan_func_next_cases)
  case (Token c1 name c3 args)
  let ?skip = "takeWhile (\<lambda>x. x \<noteq> CHR ''$'') (rest c)"
  from Token(1,2) obtain sp where cons1: "consumed c ?skip c1"
    and cons2: "consumed c1 (CHR ''$'' # name @ sp) c3"
    and tw: "takeWhile name_char (name @ sp @ rest c3) = name" by (rule marker_name_consumed)
  obtain u where cons3: "consumed c3 u c'" using scan_params_consumed [OF Token(3)] by blast
  have cons: "consumed c1 (CHR ''$'' # name @ sp @ u) c'"
    using consumed_trans [OF cons2 cons3] by simp
  have raw: "tk_raw tk = CHR ''$'' # name @ sp @ u"
    using Token(4) assms slice_consumed [OF cons] by auto
  have "takeWhile name_char (name @ sp @ u) = name"
    using takeWhile_append_prefix [of name_char "name @ sp @ u" "rest c'" name] tw
      consumed_rest [OF cons3] by (simp add: length_takeWhile_le)
  moreover have "CHR ''$'' \<notin> set ?skip" by (auto dest: set_takeWhileD)
  moreover have "consumed c (?skip @ tk_raw tk) c'" using consumed_trans [OF cons1 cons] raw by simp
  moreover have "tk_start tk = offset c + length ?skip" and "tk_end tk = offset c'"
    using Token(4) assms consumed_offset [OF cons1] by auto
  ultimately show ?thesis using Token(4) assms raw scan_params_Inr [OF Token(3)] by auto
qed simp_all

lemma scan_params_Inl_paren:
  "scan_params name c = (Inl e, c') \<Longrightarrow> \<exists>r. rest c = CHR ''('' # r"
  by (drule scan_params_shape) (auto simp: consumed_iff)

text \<open>
  A step that throws has found a marker; the text after it holds a parenthesis, the name
  attached to a missing argument is the name read after that marker, and the missing
  closing parenthesis is reported only once the whole text has been read.
\<close>

lemma scan_func_next_Inl:
  assumes "scan_func_next c = (Inl e, c')"
  shows "\<exists>skip r. CHR ''$'' \<notin> set skip \<and> rest c = skip @ CHR ''$'' # r \<and> CHR ''('' \<in> set r \<and>
           (e = MissingArgument (takeWhile name_char r) \<or> (e = ExpectedChar (CHR '')'') \<and> rest c' = []))"
  using assms
proof (cases rule: scan_func_next_cases)
  case (Failed c1 name c3 e')
  from Failed(1,2) obtain sp where cons1: "consumed c (takeWhile (\<lambda>x. x \<noteq> CHR ''$'') (rest c)) c1"
    and cons2: "consumed c1 (CHR ''$'' # name @ sp) c3"
    and tw: "takeWhile name_char (name @ sp @ rest c3) = name" by (rule marker_name_consumed)
  let ?skip = "takeWhile (\<lambda>x. x \<noteq> CHR ''$'') (rest c)" and ?r = "name @ sp @ rest c3"
  have r: "rest c = ?skip @ CHR ''$'' # ?r"
    using consumed_rest [OF cons1] consumed_rest [OF cons2] by simp
  have p: "CHR ''('' \<in> set ?r"
    using scan_params_Inl_paren [OF Failed(3)] by auto
  have s: "CHR ''$'' \<notin> set ?skip" by (auto dest: set_takeWhileD)
  have "e = MissingArgument (takeWhile name_char ?r) \<or> (e = ExpectedChar (CHR '')'') \<and> rest c' = [])"
    using scan_params_Inl [OF Failed(3)] Failed(4) tw by simp
  with r p s show ?thesis by (intro exI [of _ ?skip] exI [of _ ?r]) simp
qed simp_all

lemma scan_func_next_Some_no_paren:
  assumes "scan_func_next c = (Inr (Some tk), c')" and "CHR ''('' \<notin> set (tk_raw tk)"
  shows "tk_args tk = [] \<and> (\<exists>name sp. tk_raw tk = CHR ''$'' # name @ sp \<and>
           (\<forall>x \<in> set name. name_char x) \<and> (\<forall>x \<in> set sp. is_space x))"
  using assms(1)
proof (cases rule: scan_func_next_cases)
  case (Token c1 name c3 args)
  from Token(1,2) obtain sp where cons2: "consumed c1 (CHR ''$'' # name @ sp) c3"
    and nm: "\<forall>x \<in> set name. name_char x" and sp: "\<forall>x \<in> set sp. is_space x"
    by (rule marker_name_consumed)
  show ?thesis
  proof (cases "c' = c3 \<and> args = []")
    case True
    with cons2 Token(4) assms(1) have "tk_raw tk = CHR ''$'' # name @ sp" and "tk_args tk = []"
      using slice_consumed [OF cons2] by auto
    with nm sp show ?thesis by blast
  next
    case False
    then obtain u where "consumed c3 (CHR ''('' # u) c'"
      using scan_params_shape [OF Token(3)] by blast
    then have "tk_raw tk = CHR ''$'' # name @ sp @ CHR ''('' # u"
      using Token(4) assms(1) slice_consumed [OF consumed_trans [OF cons2]] by auto
    with assms(2) show ?thesis by simp
  qed
qed simp_all

subsection \<open>The path: JavaScript's split\<close>

lemma split_on_not_Nil [simp]: "split_on d s \<noteq> []"
  by (induction s) (simp_all add: Let_def)

lemma split_on_join: "join_on d (split_on d s) = s"
proof (induction s)
  case Nil
  then show ?case by simp
next
  case (Cons x xs)
  obtain w ws where r: "split_on d xs = w # ws" by (cases "split_on d xs") simp_all
  show ?case
  proof (cases "x = d")
    case True
    with Cons.IH r show ?thesis by simp
  next
    case False
    with Cons.IH r show ?thesis by (cases ws) simp_all
  qed
qed
lemma split_on_pieces: "w \<in> set (split_on d s) \<Longrightarrow> d \<notin> set w"
proof (induction s arbitrary: w)
  case Nil
  then show ?case by simp
next
  case (Cons x xs)
  obtain v vs where r: "split_on d xs = v # vs" by (cases "split_on d xs") simp_all
  with Cons show ?case by (auto simp: Let_def split: if_splits)
qed

lemma split_on_chars: "w \<in> set (split_on d s) \<Longrightarrow> set w \<subseteq> set s"
proof (induction s arbitrary: w)
  case Nil
  then show ?case by simp
next
  case (Cons x xs)
  obtain v vs where r: "split_on d xs = v # vs" by (cases "split_on d xs") simp_all
  have v: "set v \<subseteq> set xs" using Cons.IH [of v] r by simp
  have vs: "\<forall>u \<in> set vs. set u \<subseteq> set xs" using Cons.IH r by simp
  show ?case using Cons.prems r v vs by (auto simp: Let_def split: if_splits)
qed

lemma scan_func_next_no_marker:
  "CHR ''$'' \<notin> set (rest c) \<Longrightarrow> scan_func_next c = (Inr None, c)"
proof -
  assume "CHR ''$'' \<notin> set (rest c)"
  then have "seek (CHR ''$'') c = (False, c)" by (simp add: seek_False_iff)
  then show ?thesis by (simp add: scan_func_next_def)
qed

lemma scan_func_start [simp]:
  "input (scan_func css) = css" "offset (scan_func css) = 0" "rest (scan_func css) = css"
  by (simp_all add: scan_func_def new_scanner_def rest_def)

subsection \<open>Properties of the producer step\<close>

text \<open>
  C6. The error "expected \<^verbatim>\<open>)\<close>" is raised only once the whole text has been read:
  \<^verbatim>\<open>expect(/\)/)\<close> runs after the argument loop, which stops only in front of a
  closing parenthesis or at the end, so it can fail only at the end. A disallowed character
  in place of the parenthesis, which the specification also names, cannot occur.
\<close>

theorem expected_paren_at_end:
  assumes "scan_func_next c = (Inl (ExpectedChar ch), c')"
  shows "ch = CHR '')'' \<and> rest c' = [] \<and> input c' = input c"
proof -
  have "ch = CHR '')'' \<and> rest c' = []" using scan_func_next_Inl [OF assms] by auto
  moreover obtain u where "consumed c u c'" using scan_func_next_moves [OF assms] by blast
  ultimately show ?thesis by (simp add: consumed_input)
qed

theorem expected_paren_at_end_witness:
  "scan_func_next (scan_func ''$f(a'') = (Inl (ExpectedChar CHR '')''), \<lparr>input = ''$f(a'', offset = 4\<rparr>) \<and>
   rest \<lparr>input = ''$f(a'', offset = 4\<rparr> = []"
proof -
  have h: "scan_func_next (scan_func ''$f(a'') =
      (Inl (ExpectedChar CHR '')''), \<lparr>input = ''$f(a'', offset = 4\<rparr>)" by code_simp
  from expected_paren_at_end [OF h] h show ?thesis by simp
qed

text \<open>
  C7. A missing argument is reported with the name of its placeholder: the name read after
  the first marker of the unread text.
\<close>

theorem missing_argument_names_placeholder:
  assumes "scan_func_next c = (Inl (MissingArgument n), c')"
  shows "\<exists>skip r. CHR ''$'' \<notin> set skip \<and> rest c = skip @ CHR ''$'' # r \<and> n = takeWhile name_char r"
  using scan_func_next_Inl [OF assms] by auto

theorem missing_argument_names_placeholder_witness:
  "scan_func_next (scan_func ''x $f(a,)'') =
     (Inl (MissingArgument ''f''), \<lparr>input = ''x $f(a,)'', offset = 7\<rparr>) \<and>
   ''f'' = takeWhile name_char ''f(a,)''"
proof -
  have h: "scan_func_next (scan_func ''x $f(a,)'') =
      (Inl (MissingArgument ''f''), \<lparr>input = ''x $f(a,)'', offset = 7\<rparr>)" by code_simp
  have "rest (scan_func ''x $f(a,)'') = ''x $f(a,)''" by code_simp
  with missing_argument_names_placeholder [OF h] h show ?thesis
    by (auto simp: marker_not_name_char Cons_eq_append_conv append_eq_Cons_conv)
qed

text \<open>
  C13. Exhaustion is idempotent: a call that returns the sentinel leaves the cursor where it
  was, so every later call returns the sentinel again.
\<close>

theorem scan_func_next_exhausted:
  assumes "scan_func_next c = (Inr None, c')"
  shows "c' = c \<and> scan_func_next c' = (Inr None, c')"
  using scan_func_next_None [OF assms] assms by simp

theorem scan_func_next_exhausted_witness:
  "scan_func_next (scan_func ''no markers'') = (Inr None, scan_func ''no markers'') \<and>
   scan_func_next (scan_func ''no markers'') = (Inr None, scan_func ''no markers'')"
proof -
  have h: "scan_func_next (scan_func ''no markers'') = (Inr None, scan_func ''no markers'')"
    by code_simp
  from scan_func_next_exhausted [OF h] h show ?thesis by simp
qed


end
