(* ===== verification/ScanAll.thy ===== *)
theory ScanAll
  imports TokenScanner
begin

text \<open>
  \<^verbatim>\<open>scanAll(css)\<close> of \<^verbatim>\<open>src/src/lib/token-scanner.js\<close>: it creates the producer with
  \<^verbatim>\<open>scanFunc(css)\<close> and calls it until it returns \<^verbatim>\<open>null\<close>, pushing every token; an
  error thrown by a call leaves \<^verbatim>\<open>scanAll\<close> with it. \<open>scan_all_loop\<close> is that
  \<^verbatim>\<open>while\<close> loop, with the list \<^verbatim>\<open>result\<close> as its accumulator.

  The loop's contract (section 4.2 of the specification) is stated on its own: the
  inductive \<open>producer_run c tks\<close> says that calling the producer from state \<open>c\<close>
  yields the tokens \<open>tks\<close> one by one and then the sentinel, and \<open>producer_fails c e\<close>
  that it yields some tokens and then throws \<open>e\<close>. \<open>scan_all_loop_Inr_iff\<close> and
  \<open>scan_all_loop_Inl_iff\<close> show that the loop implements exactly this contract.
\<close>

function scan_all_loop :: "token list \<Rightarrow> cursor \<Rightarrow> scan_error + token list" where
  "scan_all_loop result c = (case scan_func_next c of
       (Inl e, _) \<Rightarrow> Inl e
     | (Inr None, _) \<Rightarrow> Inr result
     | (Inr (Some tk), c') \<Rightarrow> scan_all_loop (result @ [tk]) c')"
  by pat_completeness auto

definition scan_all :: "string \<Rightarrow> scan_error + token list" where
  "scan_all css = scan_all_loop [] (scan_func css)"

inductive producer_run :: "cursor \<Rightarrow> token list \<Rightarrow> bool" where
  exhausted: "scan_func_next c = (Inr None, c') \<Longrightarrow> producer_run c []"
| yield: "scan_func_next c = (Inr (Some tk), c') \<Longrightarrow> producer_run c' tks \<Longrightarrow>
    producer_run c (tk # tks)"

inductive producer_fails :: "cursor \<Rightarrow> scan_error \<Rightarrow> bool" where
  fail: "scan_func_next c = (Inl e, c') \<Longrightarrow> producer_fails c e"
| yield: "scan_func_next c = (Inr (Some tk), c') \<Longrightarrow> producer_fails c' e \<Longrightarrow>
    producer_fails c e"

subsection \<open>Termination and the loop's equations\<close>

lemma scan_func_next_Some_less:
  "scan_func_next c = (Inr (Some tk), c') \<Longrightarrow> length (rest c') < length (rest c)"
  by (drule scan_func_next_Some) (auto dest: consumed_less)

termination scan_all_loop
proof (relation "measure (\<lambda>(result, c). length (rest c))")
  fix result c r c' t tk
  assume "(r, c') = scan_func_next c" and "r = Inr t" and "t = Some tk"
  then have "scan_func_next c = (Inr (Some tk), c')" by simp
  then have "length (rest c') < length (rest c)" by (rule scan_func_next_Some_less)
  then show "((result @ [tk], c'), result, c) \<in> measure (\<lambda>(result, c). length (rest c))"
    by simp
qed simp

lemma scan_all_loop_Inl_step:
  "scan_func_next c = (Inl e, c') \<Longrightarrow> scan_all_loop result c = Inl e"
  by (simp add: scan_all_loop.simps [of result c])

lemma scan_all_loop_None_step:
  "scan_func_next c = (Inr None, c') \<Longrightarrow> scan_all_loop result c = Inr result"
  by (simp add: scan_all_loop.simps [of result c])

lemma scan_all_loop_Some_step:
  "scan_func_next c = (Inr (Some tk), c') \<Longrightarrow>
     scan_all_loop result c = scan_all_loop (result @ [tk]) c'"
  by (simp add: scan_all_loop.simps [of result c])

lemmas scan_all_loop_steps = scan_all_loop_Inl_step scan_all_loop_None_step scan_all_loop_Some_step

declare scan_all_loop.simps [simp del]

inductive_cases producer_run_NilE: "producer_run c []"
inductive_cases producer_run_ConsE: "producer_run c (tk # tks)"

lemma producer_run_step_iff:
  "scan_func_next c = (Inr (Some tk), c') \<Longrightarrow>
     producer_run c tks \<longleftrightarrow> (\<exists>tks'. tks = tk # tks' \<and> producer_run c' tks')"
  by (auto elim: producer_run.cases intro: producer_run.yield)

lemma producer_fails_step_iff:
  "scan_func_next c = (Inr (Some tk), c') \<Longrightarrow> producer_fails c e \<longleftrightarrow> producer_fails c' e"
  by (auto elim: producer_fails.cases intro: producer_fails.yield)

subsection \<open>The loop implements its contract\<close>

lemma scan_all_loop_Inr_iff:
  "scan_all_loop result c = Inr tks \<longleftrightarrow> (\<exists>new. tks = result @ new \<and> producer_run c new)"
proof (induction result c arbitrary: tks rule: scan_all_loop.induct)
  case (1 result c)
  obtain r c' where s: "scan_func_next c = (r, c')" by fastforce
  consider (E) e where "r = Inl e" | (N) "r = Inr None" | (S) tk where "r = Inr (Some tk)"
    by (metis option.exhaust sum.exhaust)
  then show ?case
  proof cases
    case E
    with s show ?thesis by (auto simp: scan_all_loop_Inl_step elim: producer_run.cases)
  next
    case N
    with s show ?thesis
      by (auto simp: scan_all_loop_None_step elim: producer_run.cases intro: producer_run.exhausted)
  next
    case (S tk)
    with s have "scan_all_loop result c = scan_all_loop (result @ [tk]) c'"
      by (simp add: scan_all_loop_Some_step)
    also have "\<dots> = Inr tks \<longleftrightarrow> (\<exists>new. tks = (result @ [tk]) @ new \<and> producer_run c' new)"
      using "1.IH" [OF s [symmetric, unfolded S]] by simp
    finally show ?thesis using producer_run_step_iff [OF s [unfolded S]] by auto
  qed
qed

lemma scan_all_loop_Inl_iff:
  "scan_all_loop result c = Inl e \<longleftrightarrow> producer_fails c e"
proof (induction result c rule: scan_all_loop.induct)
  case (1 result c)
  obtain r c' where s: "scan_func_next c = (r, c')" by fastforce
  consider (E) e' where "r = Inl e'" | (N) "r = Inr None" | (S) tk where "r = Inr (Some tk)"
    by (metis option.exhaust sum.exhaust)
  then show ?case
  proof cases
    case E
    with s show ?thesis
      by (auto simp: scan_all_loop_Inl_step elim: producer_fails.cases intro: producer_fails.fail)
  next
    case N
    with s show ?thesis by (auto simp: scan_all_loop_None_step elim: producer_fails.cases)
  next
    case (S tk)
    with s "1.IH" [OF s [symmetric, unfolded S]] producer_fails_step_iff [OF s [unfolded S]]
    show ?thesis by (simp add: scan_all_loop_Some_step)
  qed
qed

subsection \<open>Where the tokens of a run lie in the text\<close>

lemma scan_func_next_Some_text:
  assumes step: "scan_func_next c = (Inr (Some tk), c')" and le: "offset c \<le> length (input c)"
  shows "input c' = input c \<and> offset c \<le> tk_start tk \<and>
         tk_end tk = tk_start tk + length (tk_raw tk) \<and> tk_end tk = offset c' \<and>
         offset c' \<le> length (input c) \<and> drop (tk_start tk) (input c) = tk_raw tk @ rest c' \<and>
         (\<exists>skip. rest c = skip @ tk_raw tk @ rest c' \<and> CHR ''$'' \<notin> set skip \<and>
                 tk_start tk = offset c + length skip) \<and>
         (\<exists>v. tk_raw tk = CHR ''$'' # v)"
proof -
  obtain skip where skip: "CHR ''$'' \<notin> set skip" and cons: "consumed c (skip @ tk_raw tk) c'"
    and st: "tk_start tk = offset c + length skip" and en: "tk_end tk = offset c'"
    and hd: "hd (tk_raw tk) = CHR ''$''" and ne: "tk_raw tk \<noteq> []"
    using scan_func_next_Some [OF step] by blast
  have inp: "input c' = input c" by (rule consumed_input [OF cons])
  have d: "drop (offset c) (input c) = skip @ tk_raw tk @ rest c'"
    using consumed_drop [OF cons] by simp
  have "drop (tk_start tk) (input c) = drop (length skip) (drop (offset c) (input c))"
    by (simp add: st add.commute)
  also have "\<dots> = tk_raw tk @ rest c'" using d by simp
  finally have draw: "drop (tk_start tk) (input c) = tk_raw tk @ rest c'" .
  have "offset c' = offset c + length skip + length (tk_raw tk)"
    using consumed_offset [OF cons] by simp
  moreover have "offset c' \<le> length (input c)"
    using consumed_offset_le [OF cons le] inp by simp
  moreover have "\<exists>v. tk_raw tk = CHR ''$'' # v"
    using hd ne by (cases "tk_raw tk") auto
  moreover have "rest c = skip @ tk_raw tk @ rest c'" using d by (simp add: rest_def)
  then have "\<exists>skip'. rest c = skip' @ tk_raw tk @ rest c' \<and> CHR ''$'' \<notin> set skip' \<and>
               tk_start tk = offset c + length skip'" using skip st by blast
  ultimately show ?thesis using st en inp draw by simp
qed

lemma producer_run_tokens:
  "producer_run c tks \<Longrightarrow> offset c \<le> length (input c) \<Longrightarrow>
     \<forall>tk \<in> set tks. offset c \<le> tk_start tk \<and> tk_start tk < tk_end tk \<and>
       tk_end tk \<le> length (input c) \<and>
       tk_raw tk = take (tk_end tk - tk_start tk) (drop (tk_start tk) (input c)) \<and>
       input c ! tk_start tk = CHR ''$''"
proof (induction rule: producer_run.induct)
  case (exhausted c c')
  then show ?case by simp
next
  case (yield c tk c' tks)
  from scan_func_next_Some_text [OF yield.hyps(1) yield.prems]
  obtain v where inp: "input c' = input c" and st: "offset c \<le> tk_start tk"
    and en: "tk_end tk = tk_start tk + length (tk_raw tk)" "tk_end tk = offset c'"
    and le: "offset c' \<le> length (input c)" and d: "drop (tk_start tk) (input c) = tk_raw tk @ rest c'"
    and v: "tk_raw tk = CHR ''$'' # v" by blast
  have "tk_start tk < length (input c)" using en le v by simp
  then have "input c ! tk_start tk = drop (tk_start tk) (input c) ! 0" by simp
  then have "input c ! tk_start tk = CHR ''$''" using d v by simp
  moreover have "\<forall>t \<in> set tks. offset c' \<le> tk_start t \<and> tk_start t < tk_end t \<and>
       tk_end t \<le> length (input c) \<and>
       tk_raw t = take (tk_end t - tk_start t) (drop (tk_start t) (input c)) \<and>
       input c ! tk_start t = CHR ''$''"
    using yield.IH le inp by simp
  ultimately show ?case using st en le d v by auto
qed

lemma producer_run_sorted:
  "producer_run c tks \<Longrightarrow> offset c \<le> length (input c) \<Longrightarrow>
     sorted_wrt (\<lambda>a b. tk_end a \<le> tk_start b) tks"
proof (induction rule: producer_run.induct)
  case (exhausted c c')
  then show ?case by simp
next
  case (yield c tk c' tks)
  from scan_func_next_Some_text [OF yield.hyps(1) yield.prems]
  have inp: "input c' = input c" and en: "tk_end tk = offset c'"
    and le: "offset c' \<le> length (input c)" by simp_all
  have "\<forall>t \<in> set tks. offset c' \<le> tk_start t"
    using producer_run_tokens [OF yield.hyps(2)] le inp by simp
  with yield.IH le inp en show ?case by simp
qed

lemma producer_run_covers:
  "producer_run c tks \<Longrightarrow> offset c \<le> i \<Longrightarrow> i < length (input c) \<Longrightarrow> input c ! i = CHR ''$'' \<Longrightarrow>
     \<exists>tk \<in> set tks. tk_start tk \<le> i \<and> i < tk_end tk"
proof (induction arbitrary: i rule: producer_run.induct)
  case (exhausted c c')
  have "input c ! i \<in> set (rest c)"
    using exhausted.prems(1,2) by (intro rest_append_nth [of c "rest c" "[]"]) (simp_all add: length_rest)
  with exhausted.prems(3) scan_func_next_None [OF exhausted.hyps] show ?case by simp
next
  case (yield c tk c' tks)
  from yield.prems have le: "offset c \<le> length (input c)" by simp
  from scan_func_next_Some_text [OF yield.hyps(1) le]
  obtain skip where inp: "input c' = input c" and en: "tk_end tk = offset c'"
    and r: "rest c = skip @ tk_raw tk @ rest c'" and skip: "CHR ''$'' \<notin> set skip"
    and st: "tk_start tk = offset c + length skip" by blast
  consider "i < tk_start tk" | "tk_start tk \<le> i \<and> i < tk_end tk" | "tk_end tk \<le> i" by linarith
  then show ?case
  proof cases
    case 1
    have "input c ! i \<in> set skip"
      using r yield.prems(1) 1 st by (intro rest_append_nth) simp_all
    with skip yield.prems(3) show ?thesis by simp
  next
    case 2
    then show ?thesis by auto
  next
    case 3
    with yield.IH [of i] yield.prems inp en show ?thesis by auto
  qed
qed

lemma producer_run_count_le:
  "producer_run c tks \<Longrightarrow> offset c \<le> length (input c) \<Longrightarrow> length tks \<le> count_list (rest c) (CHR ''$'')"
proof (induction rule: producer_run.induct)
  case (exhausted c c')
  then show ?case by simp
next
  case (yield c tk c' tks)
  from scan_func_next_Some_text [OF yield.hyps(1) yield.prems]
  obtain skip v where r: "rest c = skip @ tk_raw tk @ rest c'"
    and v: "tk_raw tk = CHR ''$'' # v" and le: "offset c' \<le> length (input c')" by auto
  have "count_list (rest c) (CHR ''$'') \<ge> 1 + count_list (rest c') (CHR ''$'')"
    using r v by simp
  with yield.IH le show ?case by simp
qed

lemma producer_run_count_no_paren:
  "producer_run c tks \<Longrightarrow> offset c \<le> length (input c) \<Longrightarrow> CHR ''('' \<notin> set (rest c) \<Longrightarrow>
     length tks = count_list (rest c) (CHR ''$'')"
proof (induction rule: producer_run.induct)
  case (exhausted c c')
  have "CHR ''$'' \<notin> set (rest c)" using scan_func_next_None [OF exhausted.hyps] by simp
  then show ?case by (simp add: count_list_0_iff)
next
  case (yield c tk c' tks)
  obtain skip where r: "rest c = skip @ tk_raw tk @ rest c'" and skip: "CHR ''$'' \<notin> set skip"
    using scan_func_next_Some_text [OF yield.hyps(1) yield.prems(1)] by blast
  have le: "offset c' \<le> length (input c')"
    using scan_func_next_Some_text [OF yield.hyps(1) yield.prems(1)] by simp
  have np: "CHR ''('' \<notin> set (tk_raw tk)" "CHR ''('' \<notin> set (rest c')"
    using yield.prems(2) unfolding r by simp_all
  obtain name sp where raw: "tk_raw tk = CHR ''$'' # name @ sp"
    and nm: "\<forall>x \<in> set name. name_char x" and sp: "\<forall>x \<in> set sp. is_space x"
    using scan_func_next_Some_no_paren [OF yield.hyps(1) np(1)] by blast
  have "count_list name (CHR ''$'') = 0" using nm marker_not_name_char by (rule count_list_none)
  moreover have "count_list sp (CHR ''$'') = 0" using sp marker_not_space by (rule count_list_none)
  moreover have "count_list skip (CHR ''$'') = 0" using skip by (simp add: count_list_0_iff)
  ultimately have "count_list (rest c) (CHR ''$'') = Suc (count_list (rest c') (CHR ''$''))"
    unfolding r raw by simp
  with yield.IH le np(2) show ?case by simp
qed

lemma producer_fails_paren:
  "producer_fails c e \<Longrightarrow> CHR ''('' \<in> set (rest c) \<and>
     ((\<exists>n. e = MissingArgument n) \<or> e = ExpectedChar (CHR '')''))"
proof (induction rule: producer_fails.induct)
  case (fail c e c')
  then show ?case using scan_func_next_Inl [OF fail] by auto
next
  case (yield c tk c' e)
  obtain u where "consumed c u c'" using scan_func_next_moves [OF yield.hyps(1)] by blast
  with yield.IH show ?case by (auto dest: consumed_rest)
qed

lemma producer_run_fields:
  "producer_run c tks \<Longrightarrow> \<forall>tk \<in> set tks.
     tk_path tk = split_on (CHR ''.'') (takeWhile name_char (tl (tk_raw tk))) \<and>
     (\<forall>a \<in> set (tk_args tk). a \<noteq> [] \<and> (\<forall>x \<in> set a. arg_char x) \<and> \<not> is_space (hd a))"
  by (induction rule: producer_run.induct) (auto dest: scan_func_next_Some)

lemma scan_all_run: "scan_all css = Inr tks \<longleftrightarrow> producer_run (scan_func css) tks"
  using scan_all_loop_Inr_iff [of "[]" "scan_func css" tks] by (simp add: scan_all_def)

lemma scan_all_fails: "scan_all css = Inl e \<longleftrightarrow> producer_fails (scan_func css) e"
  using scan_all_loop_Inl_iff [of "[]" "scan_func css" e] by (simp add: scan_all_def)


end
