(* ===== verification/Reparse.thy ===== *)
theory Reparse
  imports ScanAll
begin

text \<open>
  A token's scan reads only the characters of its own raw text: the lookahead past its
  end (the character after a name, after trailing spaces, after the name when there is no
  parameter list) fails exactly as it fails at the end of a text. \<open>clip k e c\<close> is the
  cursor over the slice \<open>[k, e)\<close> of the text of \<open>c\<close>, positions shifted by \<open>k\<close>;
  every operation of the cursor and of the scanner that stops at or before \<open>e\<close> computes
  the same on the clipped cursor. Applied to the slice of a token, this shows that
  scanning the token's raw text alone gives the token back.
\<close>

definition clip :: "nat \<Rightarrow> nat \<Rightarrow> cursor \<Rightarrow> cursor" where
  "clip k e c = \<lparr>input = take (e - k) (drop k (input c)), offset = offset c - k\<rparr>"

named_theorems clip_step "operations that end inside a clip compute the same on it"

subsection \<open>The cursor on a clip\<close>

lemma rest_clip: "k \<le> offset c \<Longrightarrow> rest (clip k e c) = take (e - offset c) (rest c)"
  by (simp add: clip_def rest_def drop_take add.commute)

lemma advance_clip: "k \<le> offset c \<Longrightarrow> advance j (clip k e c) = clip k e (advance j c)"
  by (simp add: clip_def advance_def)

lemma read_while_clip [clip_step]:
  assumes "read_while P c = (s, c')" and "k \<le> offset c" and "offset c' \<le> e"
  shows "read_while P (clip k e c) = (s, clip k e c')"
proof -
  have s: "s = takeWhile P (rest c)" and c': "c' = advance (length s) c"
    using assms(1) by (auto simp: read_while_def Let_def)
  have "length (takeWhile P (rest c)) \<le> e - offset c" using assms(3) s c' by simp
  then have "takeWhile P (take (e - offset c) (rest c)) = s"
    by (simp add: takeWhile_take_le s)
  then show ?thesis using assms(2) c'
    by (simp add: read_while_def rest_clip advance_clip)
qed

lemma skip_space_clip [clip_step]:
  assumes "k \<le> offset c" and "offset (skip_space c) \<le> e"
  shows "skip_space (clip k e c) = clip k e (skip_space c)"
proof -
  obtain s c1 where rw: "read_while is_space c = (s, c1)" by fastforce
  then have "skip_space c = c1" by (simp add: skip_space_def)
  with read_while_clip [OF rw assms(1)] assms(2) show ?thesis by (simp add: skip_space_def)
qed

lemma accept_clip [clip_step]:
  assumes "accept ch c = (b, c')" and "k \<le> offset c" and "offset c' \<le> e"
  shows "accept ch (clip k e c) = (b, clip k e c')"
proof (cases b)
  case True
  with assms(1) obtain r where r: "rest c = ch # r" and c': "c' = advance 1 c"
    by (auto simp: accept_True_iff)
  have "offset c < e" using assms(3) c' by simp
  then obtain m where m: "e - offset c = Suc m" by (cases "e - offset c") auto
  have "rest (clip k e c) = ch # take m r" using assms(2) r m by (simp add: rest_clip)
  then have "accept ch (clip k e c) = (True, advance 1 (clip k e c))"
    by (simp add: accept_True_iff)
  then show ?thesis using True c' assms(2) by (simp add: advance_clip)
next
  case False
  with assms(1) have "\<not> (\<exists>r. rest c = ch # r)" and c': "c' = c"
    by (auto simp: accept_False_iff)
  then have "\<not> (\<exists>r. rest (clip k e c) = ch # r)"
    using assms(2) by (cases "rest c"; cases "e - offset c") (auto simp: rest_clip)
  then show ?thesis using False c' by (auto simp: accept_False_iff)
qed

lemma expect_clip [clip_step]:
  assumes "expect ch c = (r, c')" and "k \<le> offset c" and "offset c' \<le> e"
  shows "expect ch (clip k e c) = (r, clip k e c')"
proof -
  obtain b c1 where a: "accept ch c = (b, c1)" by fastforce
  with assms(1) have "c1 = c'" by (cases b) (auto simp: expect_def)
  with accept_clip [OF a assms(2)] a assms show ?thesis by (cases b) (auto simp: expect_def)
qed

lemma read_clip [clip_step]:
  assumes "rest c = x # r" and "k \<le> offset c" and "offset c < e"
  shows "read (clip k e c) = (Some x, clip k e (advance 1 c))"
proof -
  obtain m where m: "e - offset c = Suc m" using assms(3) by (cases "e - offset c") auto
  have "rest (clip k e c) = x # take m r" using assms(1,2) m by (simp add: rest_clip)
  then show ?thesis using assms(2) by (simp add: read_def advance_clip)
qed

lemma offset_clip [simp]: "offset (clip k e c) = offset c - k"
  by (simp add: clip_def)

lemma slice_clip:
  "k \<le> s \<Longrightarrow> s \<le> t \<Longrightarrow> t \<le> e \<Longrightarrow> slice (clip k e c) (s - k) (t - k) = slice c s t"
  by (simp add: clip_def slice_def take_drop min_def)

lemma moves_offset: "moves c c' \<Longrightarrow> offset c \<le> offset c'"
  by (auto dest: consumed_offset)

subsection \<open>The scanner on a clip\<close>

lemma scan_name_clip [clip_step]:
  assumes "scan_name c = (name, c')" and "k \<le> offset c" and "offset c' \<le> e"
  shows "scan_name (clip k e c) = (name, clip k e c')"
proof -
  obtain c1 where rw: "read_while name_char c = (name, c1)" and c': "c' = skip_space c1"
    using assms(1) by (auto simp: scan_name_def split: prod.splits)
  have "offset c \<le> offset c1" using read_while_consumed [OF rw] by (auto dest: consumed_offset)
  moreover have "offset c1 \<le> offset c'" unfolding c' by (rule moves_offset [OF skip_space_moves])
  ultimately show ?thesis using read_while_clip [OF rw assms(2)] skip_space_clip [of k c1 e] assms c'
    by (simp add: scan_name_def)
qed

lemma scan_arg_clip [clip_step]:
  assumes "scan_arg name c = (r, c')" and "k \<le> offset c" and "offset c' \<le> e"
  shows "scan_arg name (clip k e c) = (r, clip k e c')"
proof -
  obtain arg c1 where rw: "read_while arg_char c = (arg, c1)" by fastforce
  have o1: "offset c \<le> offset c1" using read_while_consumed [OF rw] by (auto dest: consumed_offset)
  show ?thesis
  proof (cases "arg = []")
    case True
    with assms(1) rw have "c' = c1" by (simp add: scan_arg_def)
    with read_while_clip [OF rw assms(2)] assms True rw show ?thesis by (simp add: scan_arg_def)
  next
    case False
    with assms(1) rw have c': "c' = skip_space c1" by (simp add: scan_arg_def)
    have "offset c1 \<le> offset c'" unfolding c' by (rule moves_offset [OF skip_space_moves])
    with read_while_clip [OF rw assms(2)] skip_space_clip [of k c1 e] assms False rw c' o1
    show ?thesis by (simp add: scan_arg_def)
  qed
qed

lemma scan_args_loop_clip [clip_step]:
  "scan_args_loop name args c = (r, c') \<Longrightarrow> k \<le> offset c \<Longrightarrow> offset c' \<le> e \<Longrightarrow>
     scan_args_loop name args (clip k e c) = (r, clip k e c')"
proof (induction name args c arbitrary: r c' rule: scan_args_loop.induct)
  case (1 name args c)
  obtain r1 c1 where s1: "scan_arg name c = (r1, c1)" by fastforce
  have o1: "offset c \<le> offset c1" using scan_arg_consumed [OF s1] by (rule moves_offset)
  show ?case
  proof (cases r1)
    case (Inl e')
    with "1.prems"(1) s1 have "r = Inl e'" "c' = c1" by (simp_all add: scan_args_loop.simps [of name args c])
    with scan_arg_clip [OF s1 "1.prems"(2)] "1.prems"(3) Inl show ?thesis
      by (simp add: scan_args_loop.simps [of name args "clip k e c"])
  next
    case (Inr arg)
    obtain b c2 where s2: "accept (CHR '','') c1 = (b, c2)" by fastforce
    have o2: "offset c1 \<le> offset c2" using accept_consumed [OF s2] by (rule moves_offset)
    show ?thesis
    proof (cases b)
      case False
      with "1.prems"(1) s1 Inr s2 have "r = Inr (args @ [arg])" "c' = c2"
        by (simp_all add: scan_args_loop.simps [of name args c])
      with scan_arg_clip [OF s1 "1.prems"(2)] accept_clip [OF s2] "1.prems"(2,3) o1 o2 False Inr
      show ?thesis by (simp add: scan_args_loop.simps [of name args "clip k e c"])
    next
      case True
      with "1.prems"(1) s1 Inr s2
      have loop: "scan_args_loop name (args @ [arg]) (skip_space c2) = (r, c')"
        by (simp add: scan_args_loop.simps [of name args c])
      have o3: "offset c2 \<le> offset (skip_space c2)" by (rule moves_offset [OF skip_space_moves])
      have o4: "offset (skip_space c2) \<le> offset c'"
        using scan_args_loop_consumed [OF loop] by (rule moves_offset)
      have IH: "scan_args_loop name (args @ [arg]) (clip k e (skip_space c2)) = (r, clip k e c')"
        using "1.IH" [OF s1 [symmetric] Inr s2 [symmetric]] True loop "1.prems"(2,3) o1 o2 o3 by simp
      from scan_arg_clip [OF s1 "1.prems"(2)] accept_clip [OF s2] skip_space_clip [of k c2 e]
        "1.prems"(2,3) o1 o2 o3 o4 True Inr IH
      show ?thesis by (simp add: scan_args_loop.simps [of name args "clip k e c"])
    qed
  qed
qed

text \<open>The two ways the parameter list combines \<open>accept\<close> with \<open>skipSpace\<close>.\<close>

lemma accept_skip_space_clip:
  assumes "accept ch c = (b, c1)" and "k \<le> offset c" and "offset (skip_space c1) \<le> e"
  shows "accept ch (clip k e c) = (b, clip k e c1)"
    and "skip_space (clip k e c1) = clip k e (skip_space c1)"
    and "k \<le> offset (skip_space c1)"
proof -
  have o1: "offset c \<le> offset c1" using accept_consumed [OF assms(1)] by (rule moves_offset)
  have o2: "offset c1 \<le> offset (skip_space c1)" by (rule moves_offset [OF skip_space_moves])
  show "accept ch (clip k e c) = (b, clip k e c1)" using accept_clip [OF assms(1,2)] o2 assms(3) by simp
  show "skip_space (clip k e c1) = clip k e (skip_space c1)" using skip_space_clip o1 assms(2,3) by simp
  show "k \<le> offset (skip_space c1)" using o1 o2 assms(2) by simp
qed

lemma skip_space_accept_clip:
  assumes "accept ch (skip_space c) = (b, c1)" and "k \<le> offset c" and "offset c1 \<le> e"
  shows "accept ch (clip k e (skip_space c)) = (b, clip k e c1)"
    and "skip_space (clip k e c) = clip k e (skip_space c)"
proof -
  have o1: "offset c \<le> offset (skip_space c)" by (rule moves_offset [OF skip_space_moves])
  have o2: "offset (skip_space c) \<le> offset c1" using accept_consumed [OF assms(1)] by (rule moves_offset)
  show "accept ch (clip k e (skip_space c)) = (b, clip k e c1)"
    using accept_clip [OF assms(1)] o1 assms(2,3) by simp
  show "skip_space (clip k e c) = clip k e (skip_space c)" using skip_space_clip o2 assms(2,3) by simp
qed

lemma args_close_clip:
  assumes "scan_args name c = (Inr args, c3)" and "accept ch (skip_space c3) = (b, c')"
    and "k \<le> offset c" and "offset c' \<le> e"
  shows "scan_args name (clip k e c) = (Inr args, clip k e c3)"
    and "accept ch (skip_space (clip k e c3)) = (b, clip k e c')"
    and "offset c3 \<le> offset c'"
proof -
  show o: "offset c3 \<le> offset c'"
    using moves_offset [OF accept_consumed [OF assms(2)]] moves_offset [OF skip_space_moves, of c3] by simp
  have k3: "k \<le> offset c3" using moves_offset [OF scan_args_moves [OF assms(1)]] assms(3) by simp
  show "scan_args name (clip k e c) = (Inr args, clip k e c3)"
    using scan_args_loop_clip [OF assms(1) [unfolded scan_args_def] assms(3)] o assms(4)
    by (simp add: scan_args_def)
  show "accept ch (skip_space (clip k e c3)) = (b, clip k e c')"
    using skip_space_accept_clip [OF assms(2) k3 assms(4)] by simp
qed

lemma scan_params_clip [clip_step]:
  assumes "scan_params name c = (r, c')" and "k \<le> offset c" and "offset c' \<le> e"
  shows "scan_params name (clip k e c) = (r, clip k e c')"
  using assms(1)
proof (cases rule: scan_params_cases)
  case NoParams
  with accept_clip [OF NoParams(1) assms(2)] assms(3) show ?thesis by (simp add: scan_params_def)
next
  case (Empty c1)
  have o: "k \<le> offset c1" "offset (skip_space c1) \<le> offset c'"
    using moves_offset [OF accept_consumed [OF Empty(1)]] moves_offset [OF accept_consumed [OF Empty(2)]]
      assms(2) by simp_all
  with skip_space_accept_clip [OF Empty(2) _ assms(3)] accept_skip_space_clip [OF Empty(1) assms(2)]
    Empty(3) assms(3)
  show ?thesis by (simp add: scan_params_def)
next
  case (ArgsError c1 e')
  have "offset (skip_space c1) \<le> offset c'" using scan_args_moves [OF ArgsError(3)] by (rule moves_offset)
  with accept_skip_space_clip [OF ArgsError(1) assms(2)] assms(3)
    scan_args_loop_clip [OF ArgsError(3) [unfolded scan_args_def]] accept_clip [OF ArgsError(2)] ArgsError(4)
  show ?thesis by (simp add: scan_params_def scan_args_def)
next
  case (CloseMissing c1 args c3)
  have "offset (skip_space c1) \<le> offset c'"
    using moves_offset [OF scan_args_moves [OF CloseMissing(3)]]
      moves_offset [OF accept_consumed [OF CloseMissing(4)]] moves_offset [OF skip_space_moves, of c3] by simp
  then have e1: "offset (skip_space c1) \<le> e" using assms(3) by simp
  note a = accept_skip_space_clip [OF CloseMissing(1) assms(2) e1]
  with args_close_clip [OF CloseMissing(3,4) a(3) assms(3)] accept_clip [OF CloseMissing(2) a(3) e1] CloseMissing(5)
  show ?thesis by (simp add: scan_params_def scan_args_def expect_def)
next
  case (Closed c1 args c3)
  have "offset (skip_space c1) \<le> offset c'"
    using moves_offset [OF scan_args_moves [OF Closed(3)]]
      moves_offset [OF accept_consumed [OF Closed(4)]] moves_offset [OF skip_space_moves, of c3] by simp
  then have e1: "offset (skip_space c1) \<le> e" using assms(3) by simp
  note a = accept_skip_space_clip [OF Closed(1) assms(2) e1]
  with args_close_clip [OF Closed(3,4) a(3) assms(3)] accept_clip [OF Closed(2) a(3) e1] Closed(5)
  show ?thesis by (simp add: scan_params_def scan_args_def expect_def)
qed

subsection \<open>A token scanned alone\<close>

lemma seek_clip_marker:
  assumes "rest c = ch # r" and "k \<le> offset c" and "offset c < e"
  shows "seek ch (clip k e c) = (True, clip k e c)"
proof -
  obtain m where m: "e - offset c = Suc m" using assms(3) by (cases "e - offset c") auto
  have "rest (clip k e c) = ch # take m r" using assms(1,2) m by (simp add: rest_clip)
  then show ?thesis by (simp add: seek_True_iff)
qed

lemma scan_func_next_clip:
  assumes "scan_func_next c = (Inr (Some tk), c')"
  shows "scan_func_next (scan_func (tk_raw tk)) =
           (Inr (Some (tk\<lparr>tk_start := 0, tk_end := length (tk_raw tk)\<rparr>)),
            \<lparr>input = tk_raw tk, offset = length (tk_raw tk)\<rparr>)"
  using assms
proof (cases rule: scan_func_next_cases)
  case (Token c1 name c3 args)
  define s where "s = offset c1"
  define t where "t = offset c'"
  obtain r where r1: "rest c1 = CHR ''$'' # r" using seek_True_consumed [OF Token(1)] by blast
  from Token(1,2) obtain sp where m3: "consumed c1 (CHR ''$'' # name @ sp) c3"
    by (rule marker_name_consumed)
  then have o3: "Suc s \<le> offset c3" by (auto simp: s_def t_def dest: consumed_offset)
  obtain u where cu: "consumed c3 u c'" using scan_params_consumed [OF Token(3)] by blast
  then have o4: "offset c3 \<le> t" by (auto simp: s_def t_def dest: consumed_offset)
  have in1: "input c' = input c1"
    using consumed_input [OF cu] consumed_input [OF m3] by simp
  have "offset c1 < length (input c1)" using r1 by (simp add: rest_def) (metis length_greater_0_conv length_drop list.discI zero_less_diff)
  then have t_le: "t \<le> length (input c1)"
    using consumed_offset_le [OF consumed_trans [OF m3 cu]] in1 by (simp add: s_def t_def)
  have raw: "tk_raw tk = take (t - s) (drop s (input c1))"
    using Token(4) in1 by (simp add: s_def t_def slice_def)
  then have len: "length (tk_raw tk) = t - s" using t_le by simp
  have d1: "scan_func (tk_raw tk) = clip s t c1"
    using raw by (simp add: scan_func_def new_scanner_def clip_def s_def t_def)
  have d4: "clip s t c' = \<lparr>input = tk_raw tk, offset = length (tk_raw tk)\<rparr>"
    using raw len in1 by (simp add: clip_def s_def t_def)
  have rd: "read (clip s t c1) = (Some CHR ''$'', clip s t (snd (read c1)))"
    using read_clip [OF r1, of s t] read_Cons [OF r1] o3 o4 by (simp add: s_def t_def)
  have o2: "offset (snd (read c1)) = Suc s" using read_Cons [OF r1] by (simp add: s_def t_def)
  have sn: "scan_name (clip s t (snd (read c1))) = (name, clip s t c3)"
    using scan_name_clip [OF Token(2)] o2 o3 o4 by simp
  have sp: "scan_params name (clip s t c3) = (Inr args, clip s t c')"
    using scan_params_clip [OF Token(3)] o3 o4 by (simp add: s_def t_def)
  have sl: "slice (clip s t c') 0 (t - s) = tk_raw tk"
    using slice_clip [of s s t t c'] o3 o4 Token(4) by (simp add: s_def t_def)
  from seek_clip_marker [OF r1, of s t] o3 o4 rd sn sp sl d1 d4 len Token(4)
  show ?thesis by (simp add: scan_func_next_def index_def Let_def s_def t_def)
qed simp_all

lemma producer_run_step:
  "producer_run c tks \<Longrightarrow> tk \<in> set tks \<Longrightarrow> \<exists>c0 c0'. scan_func_next c0 = (Inr (Some tk), c0')"
  by (induction rule: producer_run.induct) auto

lemma scan_all_clip:
  assumes "scan_func_next c = (Inr (Some tk), c')"
  shows "scan_all (tk_raw tk) = Inr [tk\<lparr>tk_start := 0, tk_end := length (tk_raw tk)\<rparr>]"
proof -
  let ?d = "\<lparr>input = tk_raw tk, offset = length (tk_raw tk)\<rparr>"
  have "scan_func_next ?d = (Inr None, ?d)"
    by (rule scan_func_next_no_marker) (simp add: rest_def)
  with scan_func_next_clip [OF assms] show ?thesis
    by (simp add: scan_all_def scan_all_loop_Some_step scan_all_loop_None_step)
qed

end
