(* ===== verification/Drain.thy ===== *)
theory Drain
  imports ScanAll
begin

text \<open>
  The drain loop \<^verbatim>\<open>scanAll\<close> of \<^verbatim>\<open>src/src/lib/token-scanner.js\<close> with a bound on the
  number of producer calls. \<open>drain n\<close> is the loop allowed at most \<open>n\<close> calls of
  the producer; it returns \<open>None\<close> when the calls run out. \<open>scan_tokens\<close>, the loop
  without its accumulator, is the intermediate step of the proof: the loop equals it
  (\<open>scan_all_loop_scan_tokens\<close>), and \<open>length css + 1\<close> bounded calls compute it.
\<close>

function scan_tokens :: "cursor \<Rightarrow> scan_error + token list" where
  "scan_tokens c = (case scan_func_next c of
       (Inl e, _) \<Rightarrow> Inl e
     | (Inr None, _) \<Rightarrow> Inr []
     | (Inr (Some tk), c') \<Rightarrow> map_sum id (Cons tk) (scan_tokens c'))"
  by pat_completeness auto

termination scan_tokens
proof (relation "measure (\<lambda>c. length (rest c))")
  fix c r c' t tk
  assume "(r, c') = scan_func_next c" and "r = Inr t" and "t = Some tk"
  then have "scan_func_next c = (Inr (Some tk), c')" by simp
  then show "(c', c) \<in> measure (\<lambda>c. length (rest c))" by (simp add: scan_func_next_Some_less)
qed simp

primrec drain :: "nat \<Rightarrow> cursor \<Rightarrow> (scan_error + token list) option" where
  "drain 0 c = None"
| "drain (Suc n) c = (case scan_func_next c of
       (Inl e, _) \<Rightarrow> Some (Inl e)
     | (Inr None, _) \<Rightarrow> Some (Inr [])
     | (Inr (Some tk), c') \<Rightarrow> map_option (map_sum id (Cons tk)) (drain n c'))"

declare scan_tokens.simps [simp del]

subsection \<open>The loop and its reference\<close>

lemma scan_all_loop_scan_tokens:
  "scan_all_loop result c = map_sum id ((@) result) (scan_tokens c)"
proof (induction result c rule: scan_all_loop.induct)
  case (1 result c)
  obtain r c' where s: "scan_func_next c = (r, c')" by fastforce
  show ?case
  proof (cases r)
    case (Inl e)
    with s show ?thesis by (simp add: scan_all_loop_Inl_step scan_tokens.simps [of c])
  next
    case (Inr t)
    show ?thesis
    proof (cases t)
      case None
      with s Inr show ?thesis by (simp add: scan_all_loop_None_step scan_tokens.simps [of c])
    next
      case (Some tk)
      with s Inr "1.IH" [OF s [symmetric] Inr Some] show ?thesis
        by (cases "scan_tokens c'") (simp_all add: scan_all_loop_Some_step scan_tokens.simps [of c])
    qed
  qed
qed

lemma scan_all_scan_tokens: "scan_all css = scan_tokens (scan_func css)"
  using scan_all_loop_scan_tokens [of "[]" "scan_func css"]
  by (cases "scan_tokens (scan_func css)") (simp_all add: scan_all_def)

subsection \<open>Enough calls\<close>

lemma drain_scan_tokens: "length (rest c) < n \<Longrightarrow> drain n c = Some (scan_tokens c)"
proof (induction n arbitrary: c)
  case 0
  then show ?case by simp
next
  case (Suc n)
  obtain r c' where s: "scan_func_next c = (r, c')" by fastforce
  show ?case
  proof (cases r)
    case (Inl e)
    with s show ?thesis by (simp add: scan_tokens.simps [of c])
  next
    case (Inr t)
    show ?thesis
    proof (cases t)
      case None
      with s Inr show ?thesis by (simp add: scan_tokens.simps [of c])
    next
      case (Some tk)
      with s Inr have "length (rest c') < length (rest c)" by (simp add: scan_func_next_Some_less)
      with Suc.prems have "drain n c' = Some (scan_tokens c')" by (intro Suc.IH) simp
      with s Inr Some show ?thesis
        by (cases "scan_tokens c'") (simp_all add: scan_tokens.simps [of c])
    qed
  qed
qed

subsection \<open>Properties of the drain loop\<close>

text \<open>
  C18. \<^verbatim>\<open>scanAll\<close> on a text of length \<open>n\<close> calls the producer at most \<open>n + 1\<close>
  times: the loop bounded to that many calls always finishes, with the result of
  \<^verbatim>\<open>scanAll\<close>.
\<close>

theorem scan_all_calls_bound: "drain (Suc (length css)) (scan_func css) = Some (scan_all css)"
  using drain_scan_tokens [of "scan_func css" "Suc (length css)"] by (simp add: scan_all_scan_tokens)


end
