(* ===== verification/Grammar.thy ===== *)
theory Grammar
  imports ScanAll
begin

text \<open>
  The grammar of placeholders that the producer of \<^verbatim>\<open>src/src/lib/token-scanner.js\<close>
  accepts, written as abstract syntax with a printer, and the lexing relation of a whole
  text, in the style of the specification (section 4.1): a marker, a name, the space after
  it, and an optional parameter list with the space after \<^verbatim>\<open>(\<close> and after each comma.
  \<open>lexes p s tks\<close> says that the text \<open>s\<close>, found at offset \<open>p\<close>, is a sequence of
  stretches without marker and placeholders, and that \<open>tks\<close> are the placeholders'
  tokens. The scanner implements this specification exactly.
\<close>

datatype params =
    NoList
  | EmptyList string                            \<comment> \<open>\<^verbatim>\<open>(\<close>, spaces, \<^verbatim>\<open>)\<close>\<close>
  | ArgList string string "(string \<times> string) list" \<comment> \<open>spaces, first argument, then comma, spaces, argument\<close>

record placeholder =
  ph_name :: string
  ph_space :: string
  ph_params :: params

fun args_tail :: "(string \<times> string) list \<Rightarrow> string" where
  "args_tail [] = []"
| "args_tail ((w, a) # xs) = CHR '','' # w @ a @ args_tail xs"

fun params_text :: "params \<Rightarrow> string" where
  "params_text NoList = []"
| "params_text (EmptyList w) = CHR ''('' # w @ [CHR '')'']"
| "params_text (ArgList w a xs) = CHR ''('' # w @ a @ args_tail xs @ [CHR '')'']"

fun params_args :: "params \<Rightarrow> string list" where
  "params_args NoList = []"
| "params_args (EmptyList w) = []"
| "params_args (ArgList w a xs) = a # map snd xs"

definition render :: "placeholder \<Rightarrow> string" where
  "render ph = CHR ''$'' # ph_name ph @ ph_space ph @ params_text (ph_params ph)"

definition spaces :: "string \<Rightarrow> bool" where
  "spaces w \<longleftrightarrow> list_all is_space w"

definition is_arg :: "string \<Rightarrow> bool" where
  "is_arg a \<longleftrightarrow> a \<noteq> [] \<and> list_all arg_char a \<and> \<not> is_space (hd a)"

fun wf_params :: "params \<Rightarrow> bool" where
  "wf_params NoList = True"
| "wf_params (EmptyList w) = spaces w"
| "wf_params (ArgList w a xs) = (spaces w \<and> is_arg a \<and> list_all (\<lambda>(w, a). spaces w \<and> is_arg a) xs)"

definition wf_placeholder :: "placeholder \<Rightarrow> bool" where
  "wf_placeholder ph \<longleftrightarrow>
     list_all name_char (ph_name ph) \<and> spaces (ph_space ph) \<and> wf_params (ph_params ph)"

text \<open>\<open>stops_at P r\<close>: a read of characters satisfying \<open>P\<close> stops before \<open>r\<close>.\<close>

definition stops_at :: "(char \<Rightarrow> bool) \<Rightarrow> string \<Rightarrow> bool" where
  "stops_at P r \<longleftrightarrow> (case r of [] \<Rightarrow> True | x # _ \<Rightarrow> \<not> P x)"

text \<open>
  The text after a placeholder without parameter list must not extend it: it does not
  continue the spaces, does not open a list, and does not continue the name when there is
  no space. A placeholder with a list ends at its \<^verbatim>\<open>)\<close>, whatever follows.
\<close>

definition ends_before :: "placeholder \<Rightarrow> string \<Rightarrow> bool" where
  "ends_before ph r \<longleftrightarrow>
     ph_params ph \<noteq> NoList \<or>
     (stops_at is_space r \<and> stops_at (\<lambda>x. x = CHR ''('') r \<and> (ph_space ph \<noteq> [] \<or> stops_at name_char r))"

definition ph_token :: "nat \<Rightarrow> placeholder \<Rightarrow> token" where
  "ph_token p ph = \<lparr>tk_start = p, tk_end = p + length (render ph), tk_raw = render ph,
     tk_path = split_on (CHR ''.'') (ph_name ph), tk_args = params_args (ph_params ph)\<rparr>"

inductive lexes :: "nat \<Rightarrow> string \<Rightarrow> token list \<Rightarrow> bool" where
  plain: "CHR ''$'' \<notin> set s \<Longrightarrow> lexes p s []"
| token: "CHR ''$'' \<notin> set skip \<Longrightarrow> wf_placeholder ph \<Longrightarrow> ends_before ph r \<Longrightarrow>
    lexes (p + length skip + length (render ph)) r tks \<Longrightarrow>
    lexes p (skip @ render ph @ r) (ph_token (p + length skip) ph # tks)"

subsection \<open>Reads that stop where the grammar says\<close>

lemma takeWhile_stops: "list_all P u \<Longrightarrow> stops_at P r \<Longrightarrow> takeWhile P (u @ r) = u"
  by (induction u) (auto simp: stops_at_def split: list.splits)

lemma read_while_stops:
  "rest c = u @ r \<Longrightarrow> list_all P u \<Longrightarrow> stops_at P r \<Longrightarrow> read_while P c = (u, advance (length u) c)"
  by (simp add: read_while_eq takeWhile_stops)

lemma skip_space_stops:
  "rest c = w @ r \<Longrightarrow> spaces w \<Longrightarrow> stops_at is_space r \<Longrightarrow> skip_space c = advance (length w) c"
  by (simp add: skip_space_def read_while_stops spaces_def)

lemma stops_at_Cons [simp]: "stops_at P (x # r) \<longleftrightarrow> \<not> P x"
  by (simp add: stops_at_def)

lemma stops_at_Nil [simp]: "stops_at P []"
  by (simp add: stops_at_def)

lemma stops_at_append: "u \<noteq> [] \<Longrightarrow> stops_at P (u @ r) \<longleftrightarrow> \<not> P (hd u)"
  by (cases u) simp_all

lemma paren_not_name_char [simp]: "\<not> name_char CHR ''(''"
  and paren_not_space [simp]: "\<not> is_space CHR ''(''"
  and close_not_space [simp]: "\<not> is_space CHR '')''"
  and comma_not_space [simp]: "\<not> is_space CHR '',''"
  and close_not_arg [simp]: "\<not> arg_char CHR '')''"
  and comma_not_arg [simp]: "\<not> arg_char CHR '',''"
  by (simp_all add: name_char_def is_space_def arg_char_def)

lemma dropWhile_stops: "list_all P u \<Longrightarrow> stops_at P r \<Longrightarrow> dropWhile P (u @ r) = r"
  by (induction u) (auto simp: stops_at_def split: list.splits)

lemma drop_Suc_Cons: "drop k xs = y # ys \<Longrightarrow> drop (Suc k) xs = ys"
  by (simp add: drop_Suc drop_tl)

lemma space_not_name_char: "is_space x \<Longrightarrow> \<not> name_char x"
  by (auto simp: is_space_def name_char_def)

lemma stops_arg_char_space: "stops_at arg_char r \<Longrightarrow> stops_at is_space r"
  by (cases r) (auto simp: arg_char_def is_space_def)

subsection \<open>The scanner accepts the grammar\<close>

lemma scan_name_fwd:
  assumes "rest c = name @ sp @ r" and "list_all name_char name" and "spaces sp"
    and "stops_at name_char (sp @ r)" and "stops_at is_space r"
  shows "scan_name c = (name, advance (length name + length sp) c)"
proof -
  have "read_while name_char c = (name, advance (length name) c)"
    using assms(1,2,4) by (rule read_while_stops)
  moreover have "skip_space (advance (length name) c) = advance (length sp) (advance (length name) c)"
    using assms(1,3,5) by (intro skip_space_stops) simp_all
  ultimately show ?thesis by (simp add: scan_name_def)
qed

lemma scan_arg_fwd:
  assumes "rest c = a @ r" and "is_arg a" and "stops_at arg_char r"
  shows "scan_arg name c = (Inr a, advance (length a) c)"
proof -
  have "read_while arg_char c = (a, advance (length a) c)"
    using assms(1,3) assms(2) by (intro read_while_stops) (simp_all add: is_arg_def)
  moreover have "skip_space (advance (length a) c) = advance (length a) c"
    using assms(1) stops_arg_char_space [OF assms(3)] skip_space_stops [of "advance (length a) c" "[]" r]
    by (simp add: spaces_def)
  ultimately show ?thesis using assms(2) by (simp add: scan_arg_def is_arg_def)
qed

lemma scan_args_loop_fwd:
  "rest c = a @ args_tail xs @ CHR '')'' # r \<Longrightarrow> is_arg a \<Longrightarrow>
   list_all (\<lambda>(w, a). spaces w \<and> is_arg a) xs \<Longrightarrow>
   scan_args_loop name args c = (Inr (args @ a # map snd xs), advance (length a + length (args_tail xs)) c)"
proof (induction xs arbitrary: a args c)
  case Nil
  then have "scan_arg name c = (Inr a, advance (length a) c)"
    by (intro scan_arg_fwd [of c a "CHR '')'' # r"]) simp_all
  moreover have "accept (CHR '','') (advance (length a) c) = (False, advance (length a) c)"
    using Nil.prems(1) by (simp add: accept_False_iff)
  ultimately show ?case by (simp add: scan_args_loop.simps [of name args c])
next
  case (Cons wb ys)
  obtain w b where wb: "wb = (w, b)" by fastforce
  let ?c1 = "advance (length a) c"
  have s1: "scan_arg name c = (Inr a, ?c1)"
    using Cons.prems(1,2) wb by (intro scan_arg_fwd [of c a "CHR '','' # w @ b @ args_tail ys @ CHR '')'' # r"]) simp_all
  have s2: "accept (CHR '','') ?c1 = (True, advance 1 ?c1)"
    using Cons.prems(1) wb by (simp add: accept_True_iff)
  have ok: "spaces w" "is_arg b" using Cons.prems(3) wb by simp_all
  then have s3: "skip_space (advance 1 ?c1) = advance (length w) (advance 1 ?c1)"
    using Cons.prems(1) wb
    by (intro skip_space_stops [of _ w "b @ args_tail ys @ CHR '')'' # r"]) (simp_all add: is_arg_def stops_at_append)
  have "scan_args_loop name (args @ [a]) (advance (length w) (advance 1 ?c1)) =
      (Inr ((args @ [a]) @ b # map snd ys),
       advance (length b + length (args_tail ys)) (advance (length w) (advance 1 ?c1)))"
    using Cons.prems(1,3) wb ok by (intro Cons.IH) simp_all
  with s1 s2 s3 wb show ?case by (simp add: scan_args_loop.simps [of name args c])
qed

lemma scan_params_fwd:
  assumes "rest c = params_text p @ r" and "wf_params p"
    and "p = NoList \<Longrightarrow> stops_at (\<lambda>x. x = CHR ''('') r"
  shows "scan_params name c = (Inr (params_args p), advance (length (params_text p)) c)"
proof (cases p)
  case NoList
  with assms show ?thesis by (cases r) (auto intro: scan_params_no_paren)
next
  case (EmptyList w)
  let ?c1 = "advance 1 c"
  have a1: "accept (CHR ''('') c = (True, ?c1)" using assms(1) EmptyList by (simp add: accept_True_iff)
  have s1: "skip_space ?c1 = advance (length w) ?c1"
    using assms(1,2) EmptyList skip_space_stops [of ?c1 w "CHR '')'' # r"] by simp
  have a2: "accept (CHR '')'') (advance (length w) ?c1) = (True, advance 1 (advance (length w) ?c1))"
    using assms(1) EmptyList by (simp add: accept_True_iff)
  from a1 s1 a2 EmptyList show ?thesis by (simp add: scan_params_def)
next
  case (ArgList w a xs)
  let ?c1 = "advance 1 c"
  let ?c2 = "advance (length w) ?c1"
  let ?c3 = "advance (length a + length (args_tail xs)) ?c2"
  have ok: "spaces w" "is_arg a" "list_all (\<lambda>(w, a). spaces w \<and> is_arg a) xs"
    using assms(2) ArgList by simp_all
  have a1: "accept (CHR ''('') c = (True, ?c1)" using assms(1) ArgList by (simp add: accept_True_iff)
  have s1: "skip_space ?c1 = ?c2"
    using assms(1) ArgList ok skip_space_stops [of ?c1 w "a @ args_tail xs @ CHR '')'' # r"]
    by (simp add: is_arg_def stops_at_append)
  have a2: "accept (CHR '')'') ?c2 = (False, ?c2)"
    using assms(1) ArgList ok(2) by (cases a) (auto simp: accept_False_iff is_arg_def)
  have l: "scan_args name ?c2 = (Inr (a # map snd xs), ?c3)"
    using assms(1) ArgList ok scan_args_loop_fwd [of ?c2 a xs r name "[]"] by (simp add: scan_args_def)
  have s3: "skip_space ?c3 = ?c3"
    using assms(1) ArgList skip_space_stops [of ?c3 "[]" "CHR '')'' # r"] by (simp add: spaces_def)
  have e: "expect (CHR '')'') ?c3 = (Inr (), advance 1 ?c3)"
    using assms(1) ArgList by (simp add: expect_Inr_iff accept_True_iff)
  from a1 s1 a2 l s3 e ArgList show ?thesis by (simp add: scan_params_def)
qed

lemma scan_func_next_fwd:
  assumes "rest c = skip @ render ph @ r" and "CHR ''$'' \<notin> set skip"
    and "wf_placeholder ph" and "ends_before ph r"
  shows "scan_func_next c = (Inr (Some (ph_token (offset c + length skip) ph)),
                             advance (length skip + length (render ph)) c)"
proof -
  obtain name sp p where ph: "ph = \<lparr>ph_name = name, ph_space = sp, ph_params = p\<rparr>"
    by (cases ph) simp
  have ok: "list_all name_char name" "spaces sp" "wf_params p"
    using assms(3) ph by (simp_all add: wf_placeholder_def)
  let ?c1 = "advance (length skip) c"
  let ?c2 = "advance 1 ?c1"
  let ?c3 = "advance (length name + length sp) ?c2"
  have rest: "rest c = skip @ CHR ''$'' # name @ sp @ params_text p @ r"
    using assms(1) ph by (simp add: render_def)
  have "takeWhile (\<lambda>x. x \<noteq> CHR ''$'') (rest c) = skip"
    unfolding rest using assms(2) by (subst takeWhile_append2) auto
  then have sk: "seek (CHR ''$'') ?c1 = (True, ?c1) \<and> seek (CHR ''$'') c = (True, ?c1)"
    using rest by (simp add: seek_True_iff)
  have rd: "read ?c1 = (Some CHR ''$'', ?c2)" using rest by (simp add: read_Cons)
  have stop_name: "stops_at name_char (sp @ params_text p @ r)" and stop_sp: "stops_at is_space (params_text p @ r)"
  proof -
    show "stops_at is_space (params_text p @ r)"
      using assms(4) ph by (cases p) (auto simp: ends_before_def)
    show "stops_at name_char (sp @ params_text p @ r)"
    proof (cases sp)
      case Nil
      then show ?thesis using assms(4) ph by (cases p) (auto simp: ends_before_def)
    next
      case (Cons x xs)
      then show ?thesis using ok(2) by (simp add: spaces_def space_not_name_char)
    qed
  qed
  have sn: "scan_name ?c2 = (name, ?c3)"
    using rest ok stop_name stop_sp by (intro scan_name_fwd [of ?c2 name sp "params_text p @ r"]) simp_all
  have r3: "rest ?c3 = params_text p @ r" using rest by simp
  have np: "p = NoList \<Longrightarrow> stops_at (\<lambda>x. x = CHR ''('') r"
    using assms(4) ph by (simp add: ends_before_def)
  have sp: "scan_params name ?c3 = (Inr (params_args p), advance (length (params_text p)) ?c3)"
    by (rule scan_params_fwd [OF r3 ok(3) np])
  have len: "length (render ph) = Suc (length name + length sp + length (params_text p))"
    using ph by (simp add: render_def)
  have sl: "take (length (render ph)) (drop (offset c + length skip) (input c)) = render ph"
    using arg_cong [OF assms(1) [unfolded rest_def], of "drop (length skip)"] by (simp add: add.commute)
  from sk rd sn sp len sl ph show ?thesis
    by (simp add: scan_func_next_def index_def slice_def ph_token_def Let_def add.assoc)
qed

lemma space_arg_char: "is_space x \<Longrightarrow> arg_char x"
  by (auto simp: is_space_def arg_char_def)

lemma is_arg_append_spaces:
  assumes "is_arg a" and "spaces sp"
  shows "is_arg (a @ sp)"
proof -
  have "a \<noteq> []" "list_all arg_char a" "\<not> is_space (hd a)" using assms(1) by (simp_all add: is_arg_def)
  moreover have "list_all arg_char sp"
    using assms(2) unfolding spaces_def list_all_iff by (blast intro: space_arg_char)
  ultimately show ?thesis by (simp add: is_arg_def)
qed

text \<open>A parameter list opened at the very end of the text, perhaps followed by spaces.\<close>

lemma scan_func_next_open_end:
  assumes "rest c = skip @ CHR ''$'' # n @ sp @ CHR ''('' # w" and "CHR ''$'' \<notin> set skip"
    and "list_all name_char n" and "spaces sp" and "spaces w"
  shows "\<exists>c'. scan_func_next c = (Inl (MissingArgument n), c')"
proof -
  let ?c1 = "advance (length skip) c"
  let ?c2 = "advance 1 ?c1"
  let ?c3 = "advance (length n + length sp) ?c2"
  let ?c4 = "advance 1 ?c3"
  let ?c5 = "advance (length w) ?c4"
  have "takeWhile (\<lambda>x. x \<noteq> CHR ''$'') (rest c) = skip"
    unfolding assms(1) using assms(2) by (subst takeWhile_append2) auto
  then have sk: "seek (CHR ''$'') c = (True, ?c1)" using assms(1) by (simp add: seek_True_iff)
  have rd: "read ?c1 = (Some CHR ''$'', ?c2)" using assms(1) by (simp add: read_Cons)
  have stop_name: "stops_at name_char (sp @ CHR ''('' # w)"
    using assms(4) by (cases sp) (simp_all add: spaces_def space_not_name_char)
  have sn: "scan_name ?c2 = (n, ?c3)"
    using assms(1,3,4) stop_name by (intro scan_name_fwd [of ?c2 n sp "CHR ''('' # w"]) simp_all
  have a1: "accept (CHR ''('') ?c3 = (True, ?c4)" using assms(1) by (simp add: accept_True_iff)
  define c5 where "c5 = ?c5"
  have s1: "skip_space ?c4 = c5" using assms(1,5) skip_space_stops [of ?c4 w "[]"] by (simp add: c5_def)
  have r5: "rest c5 = []" using assms(1) by (simp add: c5_def)
  then have a2: "accept (CHR '')'') c5 = (False, c5)" by (simp add: accept_False_iff)
  have sa: "scan_arg n c5 = (Inl (MissingArgument n), c5)"
    using r5 by (simp add: scan_arg_def read_while_def Let_def)
  have "scan_args n c5 = (Inl (MissingArgument n), c5)"
    unfolding scan_args_def by (subst scan_args_loop.simps) (simp add: sa)
  with a1 s1 a2 have "scan_params n ?c3 = (Inl (MissingArgument n), c5)" by (simp add: scan_params_def)
  with sk rd sn show ?thesis by (simp add: scan_func_next_def Let_def)
qed

subsection \<open>What the scanner accepts is in the grammar\<close>

lemma stops_at_dropWhile: "stops_at P (dropWhile P xs)"
  by (induction xs) (simp_all add: stops_at_def)

lemma stops_at_takeWhile: "list_all P u \<Longrightarrow> takeWhile P (u @ r) = u \<Longrightarrow> stops_at P r"
  by (induction u) (auto simp: stops_at_def split: list.splits)

lemma spaces_takeWhile [simp]: "spaces (takeWhile is_space xs)"
  by (auto simp: spaces_def list_all_iff dest: set_takeWhileD)

lemma stops_at_skip_space [simp]: "stops_at is_space (rest (skip_space c))"
  by (simp add: stops_at_dropWhile)

lemma scan_args_loop_bwd:
  "scan_args_loop name args c = (Inr as, c') \<Longrightarrow> stops_at is_space (rest c) \<Longrightarrow>
   \<exists>a xs. as = args @ a # map snd xs \<and> is_arg a \<and> list_all (\<lambda>(w, a). spaces w \<and> is_arg a) xs \<and>
     consumed c (a @ args_tail xs) c' \<and> stops_at (\<lambda>x. x \<noteq> CHR '')'') (rest c')"
proof (induction name args c arbitrary: as c' rule: scan_args_loop.induct)
  case (1 name args c)
  obtain r1 c1 where s1: "scan_arg name c = (r1, c1)" by fastforce
  obtain arg where r1: "r1 = Inr arg"
    using "1.prems"(1) s1 by (cases r1) (auto simp: scan_args_loop.simps [of name args c])
  from scan_arg_Inr [OF s1 [unfolded r1]] have arg: "arg = takeWhile arg_char (rest c)" "arg \<noteq> []"
    and cons1: "consumed c arg c1" and rest1: "rest c1 = dropWhile arg_char (rest c)"
    by auto
  have "is_arg arg"
  proof -
    obtain x r where xr: "rest c = x # r" using arg by (cases "rest c") simp_all
    with arg have "arg_char x" and "hd arg = x" by (simp_all split: if_splits)
    moreover have "\<not> is_space x" using "1.prems"(2) xr by simp
    moreover have "list_all arg_char arg" unfolding arg(1) list_all_iff by (blast dest: set_takeWhileD)
    ultimately show ?thesis using arg(2) by (simp add: is_arg_def)
  qed
  obtain b c2 where s2: "accept (CHR '','') c1 = (b, c2)" by fastforce
  show ?case
  proof (cases b)
    case True
    with "1.prems"(1) s1 r1 s2
    have loop: "scan_args_loop name (args @ [arg]) (skip_space c2) = (Inr as, c')"
      by (simp add: scan_args_loop.simps [of name args c])
    obtain a xs where IH: "as = (args @ [arg]) @ a # map snd xs" "is_arg a"
      "list_all (\<lambda>(w, a). spaces w \<and> is_arg a) xs" "consumed (skip_space c2) (a @ args_tail xs) c'"
      "stops_at (\<lambda>x. x \<noteq> CHR '')'') (rest c')"
      using "1.IH" [OF s1 [symmetric] r1 s2 [symmetric]] True loop stops_at_skip_space [of c2] by blast
    let ?w = "takeWhile is_space (rest c2)"
    have "accept (CHR '','') c1 = (True, c2)" using s2 True by simp
    then have "consumed c (arg @ [CHR '','']) c2"
      using cons1 accept_True_consumed by (blast intro: consumed_trans)
    then have "consumed c ((arg @ [CHR '','']) @ ?w @ a @ args_tail xs) c'"
      using skip_space_consumed [of c2] IH(4) by (blast intro: consumed_trans)
    with IH \<open>is_arg arg\<close> show ?thesis by (intro exI [of _ arg] exI [of _ "(?w, a) # xs"]) simp
  next
    case False
    with "1.prems"(1) s1 r1 s2 have "as = args @ [arg]" and "c' = c1"
      by (simp_all add: scan_args_loop.simps [of name args c] accept_False_iff)
    moreover have "stops_at (\<lambda>x. x \<noteq> CHR '')'') (rest c1)"
    proof -
      have "rest c1 = [] \<or> (\<exists>r. rest c1 = CHR '','' # r) \<or> (\<exists>r. rest c1 = CHR '')'' # r)"
        using dropWhile_arg_char [of "rest c"] unfolding rest1 [symmetric] .
      then show ?thesis using s2 False by (auto simp: accept_False_iff)
    qed
    ultimately show ?thesis using \<open>is_arg arg\<close> cons1 by (intro exI [of _ arg] exI [of _ "[]"]) simp
  qed
qed

lemma scan_params_bwd:
  assumes "scan_params name c = (Inr args, c')"
  shows "\<exists>p. wf_params p \<and> args = params_args p \<and> consumed c (params_text p) c' \<and>
           (p = NoList \<longrightarrow> stops_at (\<lambda>x. x = CHR ''('') (rest c))"
  using assms
proof (cases rule: scan_params_cases)
  case NoParams
  then have "stops_at (\<lambda>x. x = CHR ''('') (rest c)"
    by (cases "rest c") (auto simp: accept_False_iff)
  with NoParams show ?thesis by (intro exI [of _ NoList]) simp
next
  case (Empty c1)
  let ?w = "takeWhile is_space (rest c1)"
  have "consumed c ([CHR ''(''] @ ?w @ [CHR '')'']) c'"
    using accept_True_consumed [OF Empty(1)] skip_space_consumed [of c1] accept_True_consumed [OF Empty(2)]
    by (blast intro: consumed_trans)
  with Empty(3) show ?thesis by (intro exI [of _ "EmptyList ?w"]) simp
next
  case (Closed c1 args' c3)
  let ?w = "takeWhile is_space (rest c1)"
  obtain a xs where l: "args' = a # map snd xs" "is_arg a" "list_all (\<lambda>(w, a). spaces w \<and> is_arg a) xs"
      "consumed (skip_space c1) (a @ args_tail xs) c3" "stops_at (\<lambda>x. x \<noteq> CHR '')'') (rest c3)"
    using scan_args_loop_bwd [OF Closed(3) [unfolded scan_args_def] stops_at_skip_space] by auto
  have "\<exists>r. rest (skip_space c3) = CHR '')'' # r" using Closed(4) by (simp add: accept_True_iff)
  then have "skip_space c3 = c3" using l(5)
    by (cases "rest c3") (auto intro: skip_space_idle simp: stops_at_def)
  then have "consumed c3 [CHR '')''] c'" using accept_True_consumed [OF Closed(4)] by simp
  then have "consumed c ([CHR ''(''] @ ?w @ (a @ args_tail xs) @ [CHR '')'']) c'"
    using accept_True_consumed [OF Closed(1)] skip_space_consumed [of c1] l(4)
    by (blast intro: consumed_trans)
  with Closed(5) l show ?thesis by (intro exI [of _ "ArgList ?w a xs"]) simp
qed simp_all

lemma scan_name_stops: "scan_name c = (name, c') \<Longrightarrow> stops_at is_space (rest c')"
  by (auto simp: scan_name_def stops_at_dropWhile split: prod.splits)

lemma scan_func_next_bwd:
  assumes "scan_func_next c = (Inr (Some tk), c')"
  shows "\<exists>skip ph r. rest c = skip @ render ph @ r \<and> CHR ''$'' \<notin> set skip \<and> wf_placeholder ph \<and>
           ends_before ph r \<and> tk = ph_token (offset c + length skip) ph \<and>
           c' = advance (length skip + length (render ph)) c"
  using assms
proof (cases rule: scan_func_next_cases)
  case (Token c1 name c3 args)
  let ?skip = "takeWhile (\<lambda>x. x \<noteq> CHR ''$'') (rest c)"
  from Token(1,2) obtain sp where c1: "consumed c ?skip c1"
    and c3: "consumed c1 (CHR ''$'' # name @ sp) c3"
    and tw: "takeWhile name_char (name @ sp @ rest c3) = name"
    and nm: "\<forall>x \<in> set name. name_char x" and sp: "\<forall>x \<in> set sp. is_space x"
    by (rule marker_name_consumed)
  obtain p where p: "wf_params p" "args = params_args p" "consumed c3 (params_text p) c'"
      "p = NoList \<longrightarrow> stops_at (\<lambda>x. x = CHR ''('') (rest c3)"
    using scan_params_bwd [OF Token(3)] by blast
  define ph where "ph = \<lparr>ph_name = name, ph_space = sp, ph_params = p\<rparr>"
  have rph: "render ph = CHR ''$'' # name @ sp @ params_text p" by (simp add: ph_def render_def)
  have cr: "consumed c1 (render ph) c'" using consumed_trans [OF c3 p(3)] rph by simp
  have all: "consumed c (?skip @ render ph) c'" using c1 cr by (rule consumed_trans)
  have wf: "wf_placeholder ph" using nm sp p(1) by (simp add: ph_def wf_placeholder_def spaces_def list_all_iff)
  have st3: "stops_at is_space (rest c3)" using scan_name_stops [OF Token(2)] .
  have "ends_before ph (rest c')"
  proof (cases "p = NoList")
    case True
    with p(3) have "c' = c3" by simp
    moreover have "sp = [] \<Longrightarrow> stops_at name_char (rest c3)"
      using tw nm by (intro stops_at_takeWhile [of _ name]) (simp_all add: list_all_iff)
    ultimately show ?thesis using True p(4) st3 by (auto simp: ends_before_def ph_def)
  qed (simp add: ends_before_def ph_def)
  moreover have "tk = ph_token (offset c + length ?skip) ph"
  proof -
    have o1: "offset c1 = offset c + length ?skip" by (rule consumed_offset [OF c1])
    have o2: "offset c' = offset c1 + length (render ph)" by (rule consumed_offset [OF cr])
    show ?thesis using Token(4) slice_consumed [OF cr] p(2) o1 o2 by (simp add: ph_token_def ph_def)
  qed
  moreover have "CHR ''$'' \<notin> set ?skip" by (auto dest: set_takeWhileD)
  moreover have "c' = advance (length ?skip + length (render ph)) c"
    using all unfolding consumed_def by simp
  moreover have "rest c = ?skip @ render ph @ rest c'" using consumed_rest [OF all] by simp
  ultimately show ?thesis using wf by blast
qed simp_all

subsection \<open>Runs of the producer are lexings\<close>

lemma producer_run_lexes_fwd: "producer_run c tks \<Longrightarrow> lexes (offset c) (rest c) tks"
proof (induction rule: producer_run.induct)
  case (exhausted c c')
  then show ?case using scan_func_next_None by (blast intro: lexes.plain)
next
  case (yield c tk c' tks)
  obtain skip ph r where d: "rest c = skip @ render ph @ r" "CHR ''$'' \<notin> set skip" "wf_placeholder ph"
      "ends_before ph r" "tk = ph_token (offset c + length skip) ph"
      "c' = advance (length skip + length (render ph)) c"
    using scan_func_next_bwd [OF yield.hyps(1)] by blast
  have "lexes (offset c + length skip + length (render ph)) r tks"
    using yield.IH d(1,6) by (simp add: add.assoc)
  then have "lexes (offset c) (skip @ render ph @ r) (ph_token (offset c + length skip) ph # tks)"
    by (rule lexes.token [OF d(2-4)])
  then show ?case using d(1,5) by simp
qed

lemma lexes_producer_run: "lexes p s tks \<Longrightarrow> offset c = p \<Longrightarrow> rest c = s \<Longrightarrow> producer_run c tks"
proof (induction arbitrary: c rule: lexes.induct)
  case (plain s p)
  then show ?case using scan_func_next_no_marker by (blast intro: producer_run.exhausted)
next
  case (token skip ph r p tks)
  let ?c' = "advance (length skip + length (render ph)) c"
  have "scan_func_next c = (Inr (Some (ph_token (offset c + length skip) ph)), ?c')"
    using token.prems(2) token.hyps(1-3) by (rule scan_func_next_fwd)
  moreover have "producer_run ?c' tks" using token.prems by (intro token.IH) (simp_all add: add.assoc)
  ultimately show ?case using token.prems(1) by (blast intro: producer_run.yield)
qed

lemma producer_run_lexes: "producer_run c tks \<longleftrightarrow> lexes (offset c) (rest c) tks"
  using producer_run_lexes_fwd lexes_producer_run by blast

lemma lexes_token_text:
  "lexes p s tks \<Longrightarrow> tk \<in> set tks \<Longrightarrow>
   \<exists>ph r. wf_placeholder ph \<and> ends_before ph r \<and> tk = ph_token (tk_start tk) ph \<and>
     p \<le> tk_start tk \<and> drop (tk_start tk - p) s = render ph @ r"
proof (induction rule: lexes.induct)
  case (plain s p)
  then show ?case by simp
next
  case (token skip ph r p tks)
  show ?case
  proof (cases "tk = ph_token (p + length skip) ph")
    case True
    with token.hyps(2,3) show ?thesis by (intro exI [of _ ph] exI [of _ r]) (simp add: ph_token_def)
  next
    case False
    with token.prems obtain ph' r' where d: "wf_placeholder ph'" "ends_before ph' r'"
      "tk = ph_token (tk_start tk) ph'" "p + length skip + length (render ph) \<le> tk_start tk"
      "drop (tk_start tk - (p + length skip + length (render ph))) r = render ph' @ r'"
      using token.IH by auto
    have "drop (tk_start tk - p) (skip @ render ph @ r) =
        drop (tk_start tk - (p + length skip + length (render ph))) r"
      using d(4) by (simp add: algebra_simps)
    with d show ?thesis by (intro exI [of _ ph'] exI [of _ r']) simp
  qed
qed

lemma scan_all_token_text:
  "scan_all css = Inr tks \<Longrightarrow> tk \<in> set tks \<Longrightarrow>
   \<exists>ph r. wf_placeholder ph \<and> ends_before ph r \<and> tk = ph_token (tk_start tk) ph \<and>
     drop (tk_start tk) css = render ph @ r"
  using lexes_token_text [of 0 css tks tk] producer_run_lexes [of "scan_func css" tks]
  by (simp add: scan_all_run)

lemma lexes_scan_all: "lexes 0 css tks \<Longrightarrow> scan_all css = Inr tks"
  using producer_run_lexes [of "scan_func css" tks] by (simp add: scan_all_run)

subsection \<open>The scanner implements the grammar\<close>

text \<open>
  C14. \<^verbatim>\<open>scanAll\<close> refines the grammar: it succeeds on a text exactly when the text
  is a sequence of marker-free stretches and well-formed placeholders, each one not
  extended by the text after it, and it then returns exactly the placeholders' tokens.
\<close>

theorem scan_all_lexes: "scan_all css = Inr tks \<longleftrightarrow> lexes 0 css tks"
  using producer_run_lexes [of "scan_func css" tks] by (simp add: scan_all_run)

theorem scan_all_lexes_witness:
  "scan_all ''x $a(1) y'' = Inr [\<lparr>tk_start = 2, tk_end = 7, tk_raw = ''$a(1)'', tk_path = [''a''],
     tk_args = [''1'']\<rparr>] \<and>
   lexes 0 ''x $a(1) y'' [\<lparr>tk_start = 2, tk_end = 7, tk_raw = ''$a(1)'', tk_path = [''a''],
     tk_args = [''1'']\<rparr>]"
proof -
  have h: "scan_all ''x $a(1) y'' = Inr [\<lparr>tk_start = 2, tk_end = 7, tk_raw = ''$a(1)'',
      tk_path = [''a''], tk_args = [''1'']\<rparr>]" by code_simp
  with scan_all_lexes show ?thesis by blast
qed

text \<open>
  C15. One call of the producer yields a token exactly when the unread text is a
  stretch without marker, then a well-formed placeholder, then text that does not extend
  it; the token is the placeholder's, at its offset, and the cursor moves past it.
\<close>

theorem scan_func_next_Some_iff:
  "scan_func_next c = (Inr (Some tk), c') \<longleftrightarrow>
   (\<exists>skip ph r. rest c = skip @ render ph @ r \<and> CHR ''$'' \<notin> set skip \<and> wf_placeholder ph \<and>
      ends_before ph r \<and> tk = ph_token (offset c + length skip) ph \<and>
      c' = advance (length skip + length (render ph)) c)"
  using scan_func_next_bwd scan_func_next_fwd by blast

theorem scan_func_next_Some_iff_witness:
  "scan_func_next (scan_func ''x $b '') = (Inr (Some \<lparr>tk_start = 2, tk_end = 5, tk_raw = ''$b '',
     tk_path = [''b''], tk_args = []\<rparr>), \<lparr>input = ''x $b '', offset = 5\<rparr>) \<and>
   (\<exists>skip ph r. rest (scan_func ''x $b '') = skip @ render ph @ r \<and> CHR ''$'' \<notin> set skip \<and>
      wf_placeholder ph \<and> ends_before ph r \<and>
      \<lparr>tk_start = 2, tk_end = 5, tk_raw = ''$b '', tk_path = [''b''], tk_args = []\<rparr> =
        ph_token (offset (scan_func ''x $b '') + length skip) ph \<and>
      \<lparr>input = ''x $b '', offset = 5\<rparr> = advance (length skip + length (render ph)) (scan_func ''x $b ''))"
proof -
  have h: "scan_func_next (scan_func ''x $b '') = (Inr (Some \<lparr>tk_start = 2, tk_end = 5, tk_raw = ''$b '',
     tk_path = [''b''], tk_args = []\<rparr>), \<lparr>input = ''x $b '', offset = 5\<rparr>)" by code_simp
  with scan_func_next_Some_iff show ?thesis by blast
qed


end
