(* ===== verification/Styles.thy ===== *)
theory Styles
  imports Complex_Main
begin

text \<open>
  The static theme data of \<^verbatim>\<open>src/src/styles.js\<close>. Each JavaScript object literal is an
  association list in source order, keys as strings; numbers are \<open>rat\<close>, so the alpha
  \<^verbatim>\<open>0.4\<close> is exact. \<^verbatim>\<open>color = rgbsToColors(rgb)\<close> and the two rendered entries
  \<^verbatim>\<open>colorSchemes\<close> and \<^verbatim>\<open>theme\<close> of the export are computed by functions of files
  that are not in the repository; a theme entry \<^verbatim>\<open>color.ice_cream\<close> is therefore kept as
  the key \<open>''ice_cream''\<close> it looks up.
\<close>

type_synonym 'a js_object = "(string \<times> 'a) list"

definition rgb :: "rat list js_object" where
  "rgb = [
     (''rosy_red'', [255, 145, 145]),
     (''blood_red'', [115, 16, 16]),
     (''burly_wood'', [222, 184, 135]),
     (''burly_wood_shadow'', [222, 184, 135, 0.4]),
     (''ice_cream'', [250, 250, 250]),
     (''very_light_sky_blue'', [231, 245, 255]),
     (''jet_blue'', [30, 85, 175]),
     (''very_dark_navy'', [5, 10, 35]),
     (''dark_navy_grey'', [5, 10, 60])]"

definition themes :: "string js_object js_object" where
  "themes = [
     (''light'', [
        (''primary'', ''ice_cream''),
        (''text'', ''dark_navy_grey''),
        (''link'', ''rosy_red''),
        (''strong'', ''jet_blue'')]),
     (''dark'', [
        (''primary'', ''very_dark_navy''),
        (''text'', ''very_light_sky_blue''),
        (''strong'', ''burly_wood''),
        (''link'', ''blood_red'')])]"

definition font_family :: "string list js_object" where
  "font_family = [(''sans_serif'', [''sans-serif'', ''Arial'', ''Verdana''])]"

definition font_size :: "string js_object" where
  "font_size = [
     (''md'', ''clamp(1.06rem, calc(0.98rem + 0.39vw), 1.38rem)''),
     (''lg'', ''clamp(1.5rem, calc(1.41rem + 0.47vw), 1.88rem)'')]"

definition space :: "string js_object" where
  "space = [(''md'', ''1rem''), (''lg'', ''2rem''), (''xl'', ''4rem'')]"

text \<open>
  The functions \<^verbatim>\<open>rgbsToColors\<close>, \<^verbatim>\<open>renderColorSchemes\<close> and
  \<^verbatim>\<open>generateThemeVariables\<close> come from files that are not in the repository; they are
  parameters here, so what is proved holds for every implementation of them. \<open>color\<close> is
  line 23, \<open>theme_values\<close> the object \<^verbatim>\<open>themes\<close> as JavaScript evaluates it (each
  \<^verbatim>\<open>color.X\<close> a property read, \<open>None\<close> for \<^verbatim>\<open>undefined\<close>), and
  \<open>export_default\<close> the exported object.
\<close>

definition color :: "(rat list js_object \<Rightarrow> 'c js_object) \<Rightarrow> 'c js_object" where
  "color rgbsToColors = rgbsToColors rgb"

definition theme_values :: "'c js_object \<Rightarrow> 'c option js_object js_object" where
  "theme_values clr = map (\<lambda>(s, vars). (s, map (\<lambda>(v, k). (v, map_of clr k)) vars)) themes"

record ('c, 's, 't) styles_export =
  ex_colorSchemes :: 's
  ex_theme :: 't
  ex_rgb :: "rat list js_object"
  ex_color :: "'c js_object"
  ex_font_family :: "string list js_object"
  ex_font_size :: "string js_object"
  ex_space :: "string js_object"

definition export_default ::
  "(rat list js_object \<Rightarrow> 'c js_object) \<Rightarrow> ('c option js_object js_object \<Rightarrow> 's) \<Rightarrow>
   ('c option js_object js_object \<Rightarrow> 't) \<Rightarrow> ('c, 's, 't) styles_export" where
  "export_default rgbsToColors renderColorSchemes generateThemeVariables =
     \<lparr>ex_colorSchemes = renderColorSchemes (theme_values (color rgbsToColors)),
      ex_theme = generateThemeVariables (theme_values (color rgbsToColors)),
      ex_rgb = rgb, ex_color = color rgbsToColors,
      ex_font_family = font_family, ex_font_size = font_size, ex_space = space\<rparr>"

end
