(* ===== verification/Spec2Isabelle.thy ===== *)
theory Spec2Isabelle
  imports Reparse Drain Grammar Styles
begin

text \<open>
  \<^bold>\<open>A verification development for svelte-css-preprocessor's token scanner.\<close>

  \<^bold>\<open>The program.\<close> \<^verbatim>\<open>src/src/lib/token-scanner.js\<close> finds placeholders
  \<^verbatim>\<open>$name.path(arg, ...)\<close> in stylesheet text. It has three parts, which this
  development models in three theories, leaf first:
  \<^enum> the cursor primitive \<^verbatim>\<open>newScanner\<close> of \<^verbatim>\<open>./scanner.js\<close> (theory \<open>Cursor\<close>): a
    reader over the text whose only state is the offset. The file is not in the repository,
    so its methods (\<^verbatim>\<open>readWhile\<close>, \<^verbatim>\<open>skipSpace\<close>, \<^verbatim>\<open>accept\<close>, \<^verbatim>\<open>expect\<close>,
    \<^verbatim>\<open>seek\<close>, \<^verbatim>\<open>read\<close>, \<^verbatim>\<open>index\<close>, \<^verbatim>\<open>slice\<close>) are modelled from section 6 of the
    specification, as functions \<open>read_while\<close>, \<open>skip_space\<close>, \<open>accept\<close>, \<open>expect\<close>,
    \<open>seek\<close>, \<open>read\<close>, \<open>index\<close>, \<open>slice\<close> on the record \<open>cursor\<close>
    (\<open>input\<close>, \<open>offset\<close>);
  \<^enum> the producer \<^verbatim>\<open>scanFunc(css)\<close> (theory \<open>TokenScanner\<close>): its inner closures
    \<^verbatim>\<open>scanName\<close>, \<^verbatim>\<open>scanArg\<close>, \<^verbatim>\<open>scanArgs\<close> (a \<^verbatim>\<open>while (true)\<close> loop) and
    \<^verbatim>\<open>scanParams\<close> are \<open>scan_name\<close>, \<open>scan_arg\<close>, \<open>scan_args_loop\<close>/\<open>scan_args\<close>
    and \<open>scan_params\<close>; the closure it returns is the step \<open>scan_func_next\<close> from one
    cursor state to the next, and \<open>scan_func css\<close> is the producer's initial state. The
    shared cursor of the closures is passed explicitly;
  \<^enum> the drain loop \<^verbatim>\<open>scanAll(css)\<close> (theory \<open>ScanAll\<close>): \<open>scan_all_loop\<close> and
    \<open>scan_all\<close>.
  Two theories check the drain loop against other readings of it: \<open>Drain\<close> (the plain
  recursion \<open>scan_tokens\<close> and the call-bounded \<open>drain\<close>) and \<open>Reparse\<close> (the
  clipped cursor \<open>clip\<close>, on which a token is scanned from its raw text alone).
  Theory \<open>Grammar\<close> is the abstract specification of the producer: placeholders as
  abstract syntax (\<open>placeholder\<close>, \<open>params\<close>) with a printer \<open>render\<close>, their
  well-formedness, and the inductive lexing relation \<open>lexes\<close> of a whole text.
  \<^verbatim>\<open>src/src/styles.js\<close> (theory \<open>Styles\<close>) is static theme data: the tables
  \<^verbatim>\<open>rgb\<close>, \<^verbatim>\<open>themes\<close>, \<^verbatim>\<open>font_family\<close>, \<^verbatim>\<open>font_size\<close> and \<^verbatim>\<open>space\<close>
  are the definitions \<open>rgb\<close>, \<open>themes\<close>, \<open>font_family\<close>, \<open>font_size\<close>, \<open>space\<close>,
  association lists in source order; \<open>color\<close>, \<open>theme_values\<close> and
  \<open>export_default\<close> are line 23, the evaluated \<^verbatim>\<open>themes\<close> object and the export,
  with the three imported functions as parameters. It does not call the scanner.

  \<^bold>\<open>Errors and state.\<close> Both errors of the code are values of \<open>scan_error\<close>
  (theory \<open>Prelude\<close>): \<open>MissingArgument name\<close> is the \<^verbatim>\<open>throw\<close> of
  \<^verbatim>\<open>scanArg\<close>, \<open>ExpectedChar ch\<close> the failure of the cursor's \<^verbatim>\<open>expect\<close>. An
  operation that may throw returns an \<open>outcome\<close>, the error or value together with the
  cursor state after the call, because the JavaScript closure keeps its cursor after a
  throw. Offsets are \<open>nat\<close>; characters are \<open>char\<close>, so offsets agree with JavaScript's
  UTF-16 offsets on ASCII text.

  \<^bold>\<open>Loops and termination.\<close> Both loops are \<^theory_text>\<open>function\<close>s whose termination
  proof uses the measure "length of the unread rest": an argument consumes at least one
  character and a comma, a token at least its marker. No fuel is needed. \<open>drain n\<close>
  in \<open>Drain\<close> bounds the number of producer calls instead: \<open>length css + 1\<close> calls
  always suffice, because each call that yields a token consumes at least its marker and
  the last call returns the sentinel or throws.

  \<^bold>\<open>What the lemmas show.\<close> \<open>Cursor\<close>: every operation consumes a prefix of the
  unread rest (\<open>consumed c u c'\<close>), never changes the text and never passes its end.
  \<open>TokenScanner\<close>: the five paths of \<^verbatim>\<open>scanParams\<close> and the three of the producer
  step (\<open>scan_params_cases\<close>, \<open>scan_func_next_cases\<close>); what a yielded token is
  (\<open>scan_func_next_Some\<close>: a skipped stretch without marker, then exactly the token's raw
  text); the shape of arguments; when each error is raised. \<open>ScanAll\<close>: the loop
  terminates and refines its contract, the inductive run of the producer up to the
  sentinel (\<open>scan_all_loop_Inr_iff\<close>, \<open>scan_all_loop_Inl_iff\<close>); where the tokens of
  a run lie in the text. This theory states the properties of \<^verbatim>\<open>scanAll\<close> that the
  specification lists, with witnesses on concrete texts.

  \<open>Reparse\<close>: every operation that stops inside a clip computes the same on it
  (\<open>clip_step\<close>), hence scanning a token's raw text alone gives the token back.
  \<open>Grammar\<close>: the producer step yields a token exactly for a well-formed placeholder
  (\<open>scan_func_next_fwd\<close>, \<open>scan_func_next_bwd\<close>), so the tokens of \<^verbatim>\<open>scanAll\<close>
  are exactly the lexing of the text by the grammar (\<open>producer_run_lexes\<close>,
  \<open>lexes_scan_all\<close>), and each token's text is the rendering of its placeholder.
  \<open>Drain\<close>: the loop equals the plain recursion \<open>scan_tokens\<close>, and \<open>length css + 1\<close>
  calls of the producer compute \<^verbatim>\<open>scanAll\<close>. \<open>Styles\<close> holds definitions only: the
  file is constant data, and nothing about it depends on code of the repository.

  \<^bold>\<open>Where the code and the specification part.\<close> Three theorems of this theory, each over
  all inputs, state behaviour that the specification describes otherwise: spaces
  before the closing parenthesis stay in the argument, a parameter list open at the end of
  the text reports a missing argument, not a missing parenthesis, and a marker right
  before a token is a token of its own, with an empty name.

  \<^bold>\<open>Not modelled.\<close> \<^verbatim>\<open>rgbsToColors\<close>, \<^verbatim>\<open>renderColorSchemes\<close> and
  \<^verbatim>\<open>generateThemeVariables\<close>, which \<^verbatim>\<open>styles.js\<close> imports from
  \<^verbatim>\<open>colors.js\<close> and \<^verbatim>\<open>color-scheme-renderer.js\<close>: these files are not in the
  repository and the specification leaves them out of scope. They are parameters of
  \<open>color\<close> and \<open>export_default\<close>, and nothing is proved about what they compute. The
  commented-out \<^verbatim>\<open>colorWithOpacity\<close> is not code. The module export objects of
  both files (\<^verbatim>\<open>export default\<close> of the scanner) only name functions that are
  modelled.
\<close>

subsection \<open>Where the tokens lie\<close>

text \<open>
  C1. Every token returned by \<^verbatim>\<open>scanAll\<close> lies inside the text, starts at a marker,
  ends after it, and its \<^verbatim>\<open>raw\<close> is exactly \<^verbatim>\<open>text.slice(start, end)\<close>.
\<close>

theorem scan_all_tokens_in_text:
  assumes "scan_all css = Inr tks" and "tk \<in> set tks"
  shows "tk_start tk < tk_end tk \<and> tk_end tk \<le> length css \<and>
         tk_raw tk = take (tk_end tk - tk_start tk) (drop (tk_start tk) css) \<and>
         css ! tk_start tk = CHR ''$''"
  using producer_run_tokens [of "scan_func css" tks] assms by (simp add: scan_all_run)

theorem scan_all_tokens_in_text_witness:
  "scan_all ''x $a(1) y'' = Inr [\<lparr>tk_start = 2, tk_end = 7, tk_raw = ''$a(1)'', tk_path = [''a''],
     tk_args = [''1'']\<rparr>] \<and>
   ''x $a(1) y'' ! 2 = CHR ''$'' \<and> ''$a(1)'' = take (7 - 2) (drop 2 ''x $a(1) y'')"
proof -
  have h: "scan_all ''x $a(1) y'' = Inr [\<lparr>tk_start = 2, tk_end = 7, tk_raw = ''$a(1)'',
      tk_path = [''a''], tk_args = [''1'']\<rparr>]" by code_simp
  from scan_all_tokens_in_text [OF h] h show ?thesis by simp
qed

text \<open>
  C2. No marker is skipped: every \<^verbatim>\<open>$\<close> of the text lies inside the range of some
  returned token, either as its start or inside its parameter list.
\<close>

theorem scan_all_covers_markers:
  assumes "scan_all css = Inr tks" and "i < length css" and "css ! i = CHR ''$''"
  shows "\<exists>tk \<in> set tks. tk_start tk \<le> i \<and> i < tk_end tk"
  using producer_run_covers [of "scan_func css" tks i] assms by (simp add: scan_all_run)

theorem scan_all_covers_markers_witness:
  "scan_all ''$$a'' = Inr [\<lparr>tk_start = 0, tk_end = 1, tk_raw = ''$'', tk_path = [[]], tk_args = []\<rparr>,
     \<lparr>tk_start = 1, tk_end = 3, tk_raw = ''$a'', tk_path = [''a''], tk_args = []\<rparr>] \<and>
   (1::nat) < length ''$$a'' \<and> ''$$a'' ! 1 = CHR ''$''"
proof -
  have h: "scan_all ''$$a'' = Inr [\<lparr>tk_start = 0, tk_end = 1, tk_raw = ''$'', tk_path = [[]],
      tk_args = []\<rparr>, \<lparr>tk_start = 1, tk_end = 3, tk_raw = ''$a'', tk_path = [''a''], tk_args = []\<rparr>]"
    by code_simp
  have "\<exists>tk \<in> set [\<lparr>tk_start = 0, tk_end = 1, tk_raw = ''$'', tk_path = [[]], tk_args = []\<rparr>,
      \<lparr>tk_start = 1, tk_end = 3, tk_raw = ''$a'', tk_path = [''a''], tk_args = []\<rparr>].
      tk_start tk \<le> 1 \<and> 1 < tk_end tk"
    by (rule scan_all_covers_markers [OF h]) simp_all
  with h show ?thesis by simp
qed

text \<open>
  C3. The tokens come in the order of the text and their ranges do not overlap: the cursor
  never rewinds between tokens.
\<close>

theorem scan_all_tokens_ordered:
  assumes "scan_all css = Inr tks"
  shows "sorted_wrt (\<lambda>a b. tk_end a \<le> tk_start b) tks"
  using producer_run_sorted [of "scan_func css" tks] assms by (simp add: scan_all_run)

theorem scan_all_tokens_ordered_witness:
  "scan_all ''x $a(1) y $b(2) z'' = Inr
     [\<lparr>tk_start = 2, tk_end = 7, tk_raw = ''$a(1)'', tk_path = [''a''], tk_args = [''1'']\<rparr>,
      \<lparr>tk_start = 10, tk_end = 15, tk_raw = ''$b(2)'', tk_path = [''b''], tk_args = [''2'']\<rparr>] \<and>
   (7::nat) \<le> 10"
proof -
  have h: "scan_all ''x $a(1) y $b(2) z'' = Inr
     [\<lparr>tk_start = 2, tk_end = 7, tk_raw = ''$a(1)'', tk_path = [''a''], tk_args = [''1'']\<rparr>,
      \<lparr>tk_start = 10, tk_end = 15, tk_raw = ''$b(2)'', tk_path = [''b''], tk_args = [''2'']\<rparr>]"
    by code_simp
  from scan_all_tokens_ordered [OF h] h show ?thesis by simp
qed

subsection \<open>The drain loop and its contract\<close>

text \<open>
  C4. \<^verbatim>\<open>scanAll\<close> returns exactly the tokens the producer yields, in order, up to
  the sentinel, and it throws exactly when a call of the producer throws after some tokens:
  no token is skipped, reordered or duplicated, and an error is passed on unchanged.
\<close>

theorem scan_all_refines_producer:
  "(scan_all css = Inr tks \<longleftrightarrow> producer_run (scan_func css) tks) \<and>
   (scan_all css = Inl e \<longleftrightarrow> producer_fails (scan_func css) e)"
  by (simp add: scan_all_run scan_all_fails)

text \<open>
  C5. \<^verbatim>\<open>scanAll\<close> fails only on text with a parameter list, and only with one of the
  two errors of the code.
\<close>

theorem scan_all_errors:
  assumes "scan_all css = Inl e"
  shows "CHR ''('' \<in> set css \<and> ((\<exists>n. e = MissingArgument n) \<or> e = ExpectedChar (CHR '')''))"
  using producer_fails_paren [of "scan_func css" e] assms by (simp add: scan_all_fails)

theorem scan_all_errors_witness:
  "scan_all ''$f(a,)'' = Inl (MissingArgument ''f'') \<and> CHR ''('' \<in> set ''$f(a,)''"
proof -
  have h: "scan_all ''$f(a,)'' = Inl (MissingArgument ''f'')" by code_simp
  from scan_all_errors [OF h] h show ?thesis by simp
qed

subsection \<open>Arguments and paths\<close>

text \<open>
  C8. Every argument is non-empty, holds no comma and no closing parenthesis, and does not
  start with whitespace (the whitespace after the opening parenthesis and after each comma
  is skipped).
\<close>

theorem scan_all_args_shape:
  assumes "scan_all css = Inr tks" and "tk \<in> set tks" and "a \<in> set (tk_args tk)"
  shows "a \<noteq> [] \<and> CHR '','' \<notin> set a \<and> CHR '')'' \<notin> set a \<and> \<not> is_space (hd a)"
proof -
  have "a \<noteq> [] \<and> (\<forall>x \<in> set a. arg_char x) \<and> \<not> is_space (hd a)"
    using producer_run_fields [of "scan_func css" tks] assms by (simp add: scan_all_run)
  then show ?thesis by (auto simp: arg_char_def)
qed

theorem scan_all_args_shape_witness:
  "scan_all ''$f(a, b,c)'' = Inr [\<lparr>tk_start = 0, tk_end = 10, tk_raw = ''$f(a, b,c)'',
     tk_path = [''f''], tk_args = [''a'', ''b'', ''c'']\<rparr>] \<and>
   ''b'' \<noteq> [] \<and> \<not> is_space (hd ''b'')"
proof -
  have h: "scan_all ''$f(a, b,c)'' = Inr [\<lparr>tk_start = 0, tk_end = 10, tk_raw = ''$f(a, b,c)'',
     tk_path = [''f''], tk_args = [''a'', ''b'', ''c'']\<rparr>]" by code_simp
  from scan_all_args_shape [OF h, of _ "''b''"] h show ?thesis by simp
qed

text \<open>
  C9. The path of a token is its name split at dots: it is never empty, joining it with dots
  gives the name that follows the marker in \<^verbatim>\<open>raw\<close>, and its pieces hold name
  characters and no dot.
\<close>

theorem scan_all_path:
  assumes "scan_all css = Inr tks" and "tk \<in> set tks"
  shows "tk_path tk \<noteq> [] \<and> join_on CHR ''.'' (tk_path tk) = takeWhile name_char (tl (tk_raw tk)) \<and>
         (\<forall>seg \<in> set (tk_path tk). CHR ''.'' \<notin> set seg \<and> (\<forall>x \<in> set seg. name_char x))"
proof -
  have p: "tk_path tk = split_on (CHR ''.'') (takeWhile name_char (tl (tk_raw tk)))"
    using producer_run_fields [of "scan_func css" tks] assms by (simp add: scan_all_run)
  have "\<forall>seg \<in> set (tk_path tk). \<forall>x \<in> set seg. name_char x"
    unfolding p by (auto dest!: split_on_chars dest: set_takeWhileD)
  then show ?thesis unfolding p by (auto simp: split_on_join dest: split_on_pieces)
qed

theorem scan_all_path_witness:
  "scan_all ''$a.b.c(1)'' = Inr [\<lparr>tk_start = 0, tk_end = 9, tk_raw = ''$a.b.c(1)'',
     tk_path = [''a'', ''b'', ''c''], tk_args = [''1'']\<rparr>] \<and>
   join_on CHR ''.'' [''a'', ''b'', ''c''] = takeWhile name_char ''a.b.c(1)''"
proof -
  have h: "scan_all ''$a.b.c(1)'' = Inr [\<lparr>tk_start = 0, tk_end = 9, tk_raw = ''$a.b.c(1)'',
     tk_path = [''a'', ''b'', ''c''], tk_args = [''1'']\<rparr>]" by code_simp
  from scan_all_path [OF h] h show ?thesis by simp
qed

subsection \<open>Counting tokens\<close>

text \<open>C10. Text without a marker has no token.\<close>

theorem scan_all_no_marker:
  assumes "CHR ''$'' \<notin> set css"
  shows "scan_all css = Inr []"
proof -
  have "scan_func_next (scan_func css) = (Inr None, scan_func css)"
    using assms by (simp add: scan_func_next_no_marker)
  then show ?thesis by (simp add: scan_all_def scan_all_loop_None_step)
qed

theorem scan_all_no_marker_witness:
  "CHR ''$'' \<notin> set ''a { color: red }'' \<and> scan_all ''a { color: red }'' = Inr []"
proof -
  have h: "CHR ''$'' \<notin> set ''a { color: red }''" by simp
  from scan_all_no_marker [OF h] h show ?thesis by simp
qed

text \<open>
  C11. Text without a parenthesis never fails, and every marker of it starts a token of its
  own: there is exactly one token per \<^verbatim>\<open>$\<close>.
\<close>

theorem scan_all_no_params_count:
  assumes "CHR ''('' \<notin> set css"
  shows "\<exists>tks. scan_all css = Inr tks \<and> length tks = count_list css (CHR ''$'')"
proof (cases "scan_all css")
  case (Inl e)
  with producer_fails_paren [of "scan_func css" e] assms show ?thesis by (simp add: scan_all_fails)
next
  case (Inr tks)
  with producer_run_count_no_paren [of "scan_func css" tks] assms show ?thesis
    by (auto simp: scan_all_run)
qed

theorem scan_all_no_params_count_witness:
  "CHR ''('' \<notin> set ''$a $b.c x'' \<and>
   scan_all ''$a $b.c x'' = Inr [\<lparr>tk_start = 0, tk_end = 3, tk_raw = ''$a '', tk_path = [''a''], tk_args = []\<rparr>,
     \<lparr>tk_start = 3, tk_end = 8, tk_raw = ''$b.c '', tk_path = [''b'', ''c''], tk_args = []\<rparr>] \<and>
   count_list ''$a $b.c x'' (CHR ''$'') = 2"
proof -
  have h: "CHR ''('' \<notin> set ''$a $b.c x''" by simp
  have r: "scan_all ''$a $b.c x'' = Inr [\<lparr>tk_start = 0, tk_end = 3, tk_raw = ''$a '', tk_path = [''a''],
      tk_args = []\<rparr>, \<lparr>tk_start = 3, tk_end = 8, tk_raw = ''$b.c '', tk_path = [''b'', ''c''],
      tk_args = []\<rparr>]" by code_simp
  from scan_all_no_params_count [OF h] h r show ?thesis by auto
qed

text \<open>
  C12. There are never more tokens than markers: every token consumes its own marker, so
  the producer never yields a token twice.
\<close>

theorem scan_all_token_count_bound:
  assumes "scan_all css = Inr tks"
  shows "length tks \<le> count_list css (CHR ''$'')"
  using producer_run_count_le [of "scan_func css" tks] assms by (simp add: scan_all_run)

theorem scan_all_token_count_bound_witness:
  "scan_all ''$f($g)'' = Inr [\<lparr>tk_start = 0, tk_end = 6, tk_raw = ''$f($g)'', tk_path = [''f''],
     tk_args = [''$g'']\<rparr>] \<and> length [()] \<le> count_list ''$f($g)'' (CHR ''$'')"
proof -
  have h: "scan_all ''$f($g)'' = Inr [\<lparr>tk_start = 0, tk_end = 6, tk_raw = ''$f($g)'',
      tk_path = [''f''], tk_args = [''$g'']\<rparr>]" by code_simp
  from scan_all_token_count_bound [OF h] h show ?thesis by simp
qed

subsection \<open>Reparsing a token\<close>

text \<open>
  C16. A token's raw text, scanned alone, gives the token back: \<^verbatim>\<open>scanAll(tk.raw)\<close>
  returns exactly one token, with the same path and arguments, spanning the whole raw
  text. The scan of a placeholder never depends on the text after it.
\<close>

theorem scan_all_reparse_raw:
  assumes "scan_all css = Inr tks" and "tk \<in> set tks"
  shows "scan_all (tk_raw tk) = Inr [tk\<lparr>tk_start := 0, tk_end := length (tk_raw tk)\<rparr>]"
proof -
  have "producer_run (scan_func css) tks" using assms(1) by (simp add: scan_all_run)
  then obtain c c' where "scan_func_next c = (Inr (Some tk), c')"
    using assms(2) by (blast dest: producer_run_step)
  then show ?thesis by (rule scan_all_clip)
qed

theorem scan_all_reparse_raw_witness:
  "scan_all ''a $b.c( p , q)x'' = Inr [\<lparr>tk_start = 2, tk_end = 14, tk_raw = ''$b.c( p , q)'',
     tk_path = [''b'', ''c''], tk_args = [''p '', ''q'']\<rparr>] \<and>
   scan_all ''$b.c( p , q)'' = Inr [\<lparr>tk_start = 0, tk_end = 12, tk_raw = ''$b.c( p , q)'',
     tk_path = [''b'', ''c''], tk_args = [''p '', ''q'']\<rparr>]"
proof -
  have h: "scan_all ''a $b.c( p , q)x'' = Inr [\<lparr>tk_start = 2, tk_end = 14, tk_raw = ''$b.c( p , q)'',
     tk_path = [''b'', ''c''], tk_args = [''p '', ''q'']\<rparr>]" by code_simp
  from scan_all_reparse_raw [OF h] h show ?thesis by simp
qed

subsection \<open>Tokens without a parameter list\<close>

text \<open>
  C17. A token whose raw text holds no parenthesis has no arguments, and its raw text is the
  marker, then the longest name that follows it in the text, then all the whitespace that
  follows the name: the token ends after that whitespace, as section 4.1 of the
  specification requires for compatibility.
\<close>

theorem scan_all_no_paren_token:
  assumes "scan_all css = Inr tks" and "tk \<in> set tks" and "CHR ''('' \<notin> set (tk_raw tk)"
  shows "tk_args tk = [] \<and>
         tk_raw tk = CHR ''$'' # takeWhile name_char (drop (Suc (tk_start tk)) css) @
                     takeWhile is_space (dropWhile name_char (drop (Suc (tk_start tk)) css))"
proof -
  obtain ph r where d: "wf_placeholder ph" "ends_before ph r" "tk = ph_token (tk_start tk) ph"
      "drop (tk_start tk) css = render ph @ r"
    using scan_all_token_text [OF assms(1,2)] by blast
  from d(3) obtain s where tk: "tk = ph_token s ph" by blast
  obtain n sp p where ph: "ph = \<lparr>ph_name = n, ph_space = sp, ph_params = p\<rparr>" by (cases ph) simp
  have p: "p = NoList" using assms(3) tk ph by (cases p) (simp_all add: ph_token_def render_def)
  have ok: "list_all name_char n" "spaces sp" using d(1) ph by (simp_all add: wf_placeholder_def)
  have eb: "stops_at is_space r" "sp \<noteq> [] \<or> stops_at name_char r"
    using d(2) ph p by (simp_all add: ends_before_def)
  have "drop (tk_start tk) css = CHR ''$'' # n @ sp @ r" using d(4) ph p by (simp add: render_def)
  then have dr: "drop (Suc (tk_start tk)) css = n @ sp @ r" by (rule drop_Suc_Cons)
  have sn: "stops_at name_char (sp @ r)"
    using eb(2) ok(2) by (cases sp) (auto simp: spaces_def space_not_name_char)
  have "takeWhile name_char (n @ sp @ r) = n" "dropWhile name_char (n @ sp @ r) = sp @ r"
    using ok(1) sn by (simp_all add: takeWhile_stops dropWhile_stops)
  moreover have "takeWhile is_space (sp @ r) = sp"
    using ok(2) eb(1) by (simp add: takeWhile_stops spaces_def)
  ultimately show ?thesis using dr tk ph p by (simp add: ph_token_def render_def)
qed

theorem scan_all_no_paren_token_witness:
  "scan_all ''$a  x'' = Inr [\<lparr>tk_start = 0, tk_end = 4, tk_raw = ''$a  '', tk_path = [''a''],
     tk_args = []\<rparr>] \<and> CHR ''('' \<notin> set ''$a  '' \<and>
   ''$a  '' = CHR ''$'' # takeWhile name_char (drop 1 ''$a  x'') @
     takeWhile is_space (dropWhile name_char (drop 1 ''$a  x''))"
proof -
  have h: "scan_all ''$a  x'' = Inr [\<lparr>tk_start = 0, tk_end = 4, tk_raw = ''$a  '',
      tk_path = [''a''], tk_args = []\<rparr>]" by code_simp
  from scan_all_no_paren_token [OF h] h show ?thesis by simp
qed

subsection \<open>Where the code and the specification part\<close>

text \<open>
  C19. An argument keeps the whitespace in front of the closing parenthesis: for every
  name \<open>n\<close>, argument \<open>a\<close> and run of spaces \<open>sp\<close>, scanning \<^verbatim>\<open>$n(a sp)\<close> gives the
  single argument \<open>a @ sp\<close>. The specification says that arguments are trimmed of the
  surrounding whitespace; in the code the \<^verbatim>\<open>skipSpace()\<close> after
  \<^verbatim>\<open>readWhile(/[^,)]/)\<close> never moves, because the read has already taken the spaces.
\<close>

theorem scan_all_keeps_trailing_space:
  assumes "list_all name_char n" and "is_arg a" and "spaces sp"
  shows "scan_all (CHR ''$'' # n @ CHR ''('' # a @ sp @ [CHR '')'']) =
           Inr [\<lparr>tk_start = 0, tk_end = length n + length a + length sp + 3,
                 tk_raw = CHR ''$'' # n @ CHR ''('' # a @ sp @ [CHR '')''],
                 tk_path = split_on CHR ''.'' n, tk_args = [a @ sp]\<rparr>]"
proof -
  let ?ph = "\<lparr>ph_name = n, ph_space = [], ph_params = ArgList [] (a @ sp) []\<rparr>"
  have "wf_placeholder ?ph"
    using assms(1) is_arg_append_spaces [OF assms(2,3)] by (simp add: wf_placeholder_def spaces_def)
  moreover have "ends_before ?ph []" by (simp add: ends_before_def)
  ultimately have "lexes 0 ([] @ render ?ph @ []) [ph_token (0 + length ([] :: string)) ?ph]"
    using lexes.token [of "[]" ?ph "[]" 0 "[]"] lexes.plain [of "[]"] by simp
  then have "scan_all (render ?ph) = Inr [ph_token 0 ?ph]" by (simp add: lexes_scan_all)
  then show ?thesis by (simp add: render_def ph_token_def)
qed

theorem scan_all_keeps_trailing_space_witness:
  "list_all name_char ''f'' \<and> is_arg ''x'' \<and> spaces '' '' \<and>
   scan_all ''$f(x )'' = Inr [\<lparr>tk_start = 0, tk_end = 6, tk_raw = ''$f(x )'', tk_path = [''f''],
     tk_args = [''x '']\<rparr>]"
proof -
  have h: "list_all name_char ''f'' \<and> is_arg ''x'' \<and> spaces '' ''"
    by (simp add: name_char_def is_arg_def spaces_def is_space_def arg_char_def)
  have "split_on CHR ''.'' ''f'' = [''f'']" by code_simp
  with h scan_all_keeps_trailing_space [of "''f''" "''x''" "'' ''"] show ?thesis by simp
qed

text \<open>
  C20. A parameter list opened at the end of the text, perhaps followed by whitespace, is
  reported as a missing argument that names the placeholder. Section 7 of the
  specification names the missing closing parenthesis for "a dangling \<^verbatim>\<open>(\<close> with no
  matching \<^verbatim>\<open>)\<close>": in the code the argument loop runs before \<^verbatim>\<open>expect(/\)/)\<close>, and
  its first \<^verbatim>\<open>readWhile\<close> finds nothing.
\<close>

theorem scan_all_open_list_at_end:
  assumes "CHR ''$'' \<notin> set skip" and "list_all name_char n" and "spaces sp" and "spaces w"
  shows "scan_all (skip @ CHR ''$'' # n @ sp @ CHR ''('' # w) = Inl (MissingArgument n)"
proof -
  obtain c' where "scan_func_next (scan_func (skip @ CHR ''$'' # n @ sp @ CHR ''('' # w)) =
      (Inl (MissingArgument n), c')"
    using scan_func_next_open_end [of "scan_func (skip @ CHR ''$'' # n @ sp @ CHR ''('' # w)" skip n sp w]
      assms by auto
  then show ?thesis unfolding scan_all_def by (rule scan_all_loop_Inl_step)
qed

theorem scan_all_open_list_at_end_witness:
  "CHR ''$'' \<notin> set ''a '' \<and> list_all name_char ''f'' \<and> spaces [] \<and> spaces '' '' \<and>
   scan_all ''a $f( '' = Inl (MissingArgument ''f'')"
proof -
  have h: "CHR ''$'' \<notin> set ''a '' \<and> list_all name_char ''f'' \<and> spaces [] \<and> spaces '' ''"
    by (simp add: name_char_def spaces_def is_space_def)
  with scan_all_open_list_at_end [of "''a ''" "''f''" "[]" "'' ''"] show ?thesis by simp
qed

text \<open>
  C21. The round trip of section 8 of the specification, \<^verbatim>\<open>"$" + token.raw\<close> scanned
  alone, does not give the token back. The raw text already starts with the marker, so the
  text starts with an empty placeholder \<^verbatim>\<open>$\<close>, and the token follows as a second token,
  shifted by one.
\<close>

theorem scan_all_marker_raw:
  assumes "scan_all css = Inr tks" and "tk \<in> set tks"
  shows "scan_all (CHR ''$'' # tk_raw tk) =
           Inr [\<lparr>tk_start = 0, tk_end = 1, tk_raw = ''$'', tk_path = [[]], tk_args = []\<rparr>,
                tk\<lparr>tk_start := 1, tk_end := Suc (length (tk_raw tk))\<rparr>]"
proof -
  obtain ph where d: "wf_placeholder ph" "tk = ph_token (tk_start tk) ph"
    using scan_all_token_text [OF assms] by blast
  from d(2) obtain s where tk: "tk = ph_token s ph" by blast
  let ?ph0 = "\<lparr>ph_name = [], ph_space = [], ph_params = NoList\<rparr>"
  have w0: "wf_placeholder ?ph0" by (simp add: wf_placeholder_def spaces_def)
  have e0: "ends_before ?ph0 (render ph)"
    using marker_not_space marker_not_name_char by (simp add: ends_before_def render_def)
  have e1: "ends_before ph []" by (simp add: ends_before_def)
  have l1: "lexes 1 (render ph) [ph_token 1 ph]"
    using lexes.token [of "[]" ph "[]" 1 "[]"] d(1) e1 lexes.plain [of "[]"] by simp
  have "lexes 0 (render ?ph0 @ render ph) [ph_token 0 ?ph0, ph_token 1 ph]"
    using lexes.token [of "[]" ?ph0 "render ph" 0 "[ph_token 1 ph]"] w0 e0 l1 by (simp add: render_def)
  then have "scan_all (render ?ph0 @ render ph) = Inr [ph_token 0 ?ph0, ph_token 1 ph]"
    by (rule lexes_scan_all)
  then show ?thesis using tk by (simp add: render_def ph_token_def)
qed

theorem scan_all_marker_raw_witness:
  "scan_all ''x $a(1) y'' = Inr [\<lparr>tk_start = 2, tk_end = 7, tk_raw = ''$a(1)'', tk_path = [''a''],
     tk_args = [''1'']\<rparr>] \<and>
   scan_all ''$$a(1)'' = Inr [\<lparr>tk_start = 0, tk_end = 1, tk_raw = ''$'', tk_path = [[]], tk_args = []\<rparr>,
     \<lparr>tk_start = 1, tk_end = 6, tk_raw = ''$a(1)'', tk_path = [''a''], tk_args = [''1'']\<rparr>]"
proof -
  have h: "scan_all ''x $a(1) y'' = Inr [\<lparr>tk_start = 2, tk_end = 7, tk_raw = ''$a(1)'',
      tk_path = [''a''], tk_args = [''1'']\<rparr>]" by code_simp
  from scan_all_marker_raw [OF h] h show ?thesis by simp
qed

end
